theory Spec2Isabelle
  imports Main "HOL-Library.AList" "HOL-Library.Multiset"
begin

section \<open>Tee-time aggregation server (src/server/index.js)\<close>

text \<open>
  The server keeps a registry of courses, a cache with per-entry expiry and talks to one
  upstream booking service. The embedding passes the server's state explicitly, takes the
  upstream's answers, the clock and the engine's sort and string comparison as arguments,
  and turns every JavaScript exception into a value of type \<open>error\<close>. The clock is read once for each call: time stands
  still while one call runs.
\<close>

subsection \<open>JavaScript values\<close>

text \<open>
  A value read from the upstream's JSON, or \<open>undefined\<close> for a property that is not
  there. JSON numbers are kept as integers: the server only tests numbers for truthiness
  and prints them, it never computes with them. An object is the list of its own
  properties, each name once. A \<open>char\<close> stands for one code unit below 256 of a
  JavaScript string.
\<close>

datatype jsval =
    JUndefined
  | JNull
  | JBool bool
  | JNum int
  | JStr string
  | JArr "jsval list"
  | JObj "(string \<times> jsval) list"

datatype error = TypeError

text \<open>The test \<open>if (v)\<close> and its negation \<open>!v\<close>.\<close>

fun truthy :: "jsval \<Rightarrow> bool" where
  "truthy JUndefined = False"
| "truthy JNull = False"
| "truthy (JBool b) = b"
| "truthy (JNum n) = (n \<noteq> 0)"
| "truthy (JStr s) = (s \<noteq> [])"
| "truthy (JArr xs) = True"
| "truthy (JObj kvs) = True"

text \<open>
  A number that may be missing (\<open>undefined\<close>, \<open>null\<close> or \<open>NaN\<close>) is an \<open>int option\<close>;
  \<open>!n\<close> holds for a missing number and for 0.
\<close>

definition truthy_num :: "int option \<Rightarrow> bool" where
  "truthy_num v = (case v of None \<Rightarrow> False | Some n \<Rightarrow> n \<noteq> 0)"

subsection \<open>Strings and numbers of the platform\<close>

text \<open>White space as \<open>\s\<close> and \<open>trim\<close> see it, and the decimal digits of \<open>\d\<close>.\<close>

definition isSpace :: "char \<Rightarrow> bool" where
  "isSpace c = (of_char c \<in> {9, 10, 11, 12, 13, 32, 160 :: nat})"

definition isDigit :: "char \<Rightarrow> bool" where
  "isDigit c = (48 \<le> (of_char c :: nat) \<and> (of_char c :: nat) \<le> 57)"

definition trim :: "string \<Rightarrow> string" where
  "trim s = rev (dropWhile isSpace (rev (dropWhile isSpace s)))"

text \<open>\<open>s.split(',')\<close>: the pieces between the separators, empty pieces included.\<close>

fun split_on :: "char \<Rightarrow> string \<Rightarrow> string list" where
  "split_on c [] = ['''']"
| "split_on c (x # xs) =
     (if x = c then [] # split_on c xs
      else (x # hd (split_on c xs)) # tl (split_on c xs))"

text \<open>A number inside a template literal.\<close>

fun show_nat :: "nat \<Rightarrow> string" where
  "show_nat n =
     (if n < 10 then [char_of (48 + n)]
      else show_nat (n div 10) @ [char_of (48 + n mod 10)])"

definition show_int :: "int \<Rightarrow> string" where
  "show_int i = (if i < 0 then CHR ''-'' # show_nat (nat (- i)) else show_nat (nat i))"

definition show_num :: "int option \<Rightarrow> string" where
  "show_num v = (case v of None \<Rightarrow> ''NaN'' | Some i \<Rightarrow> show_int i)"

text \<open>
  \<open>parseInt(s)\<close> with no radix: leading white space, an optional sign, an optional
  \<open>0x\<close> prefix, then the longest run of digits of the radix; \<open>None\<close> is \<open>NaN\<close>.
  The numbers of the model are the integers, so the result here is the exact value of
  the run. The platform's numbers are doubles: they hold every integer up to \<open>2 ^ 53\<close>,
  and up to there the platform's result is this one; the value of a longer run the
  platform rounds. What is stated below about the value that \<open>parseInt\<close> reads is
  stated for values up to \<open>2 ^ 53\<close>.
\<close>

definition digitValue :: "char \<Rightarrow> nat option" where
  "digitValue c =
     (let n = (of_char c :: nat)
      in if 48 \<le> n \<and> n \<le> 57 then Some (n - 48)
         else if 97 \<le> n \<and> n \<le> 102 then Some (n - 87)
         else if 65 \<le> n \<and> n \<le> 70 then Some (n - 55)
         else None)"

fun radix_prefix :: "nat \<Rightarrow> string \<Rightarrow> nat list" where
  "radix_prefix r [] = []"
| "radix_prefix r (c # cs) =
     (case digitValue c of
        None \<Rightarrow> []
      | Some d \<Rightarrow> if d < r then d # radix_prefix r cs else [])"

definition parseInt :: "string \<Rightarrow> int option" where
  "parseInt s =
     (let s1 = dropWhile isSpace s;
          neg = (take 1 s1 = ''-'');
          s2 = (if take 1 s1 = ''-'' \<or> take 1 s1 = ''+'' then drop 1 s1 else s1);
          hex = (take 2 s2 = ''0x'' \<or> take 2 s2 = ''0X'');
          r = (if hex then 16 else 10);
          ds = radix_prefix r (if hex then drop 2 s2 else s2);
          n = int (foldl (\<lambda>a d. a * r + d) 0 ds)
      in if ds = [] then None else Some (if neg then - n else n))"

text \<open>
  \<open>String(v)\<close>, which \<open>localeCompare\<close> applies to its argument (for an object: one
  that keeps the inherited \<open>toString\<close>).
\<close>

fun intercalate :: "string \<Rightarrow> string list \<Rightarrow> string" where
  "intercalate sep [] = []"
| "intercalate sep [x] = x"
| "intercalate sep (x # y # ys) = x @ sep @ intercalate sep (y # ys)"

fun toString :: "jsval \<Rightarrow> string" where
  "toString JUndefined = ''undefined''"
| "toString JNull = ''null''"
| "toString (JBool b) = (if b then ''true'' else ''false'')"
| "toString (JNum n) = show_int n"
| "toString (JStr s) = s"
| "toString (JArr xs) =
     intercalate '','' (map (\<lambda>x. if x = JUndefined \<or> x = JNull then [] else toString x) xs)"
| "toString (JObj kvs) = ''[object Object]''"

subsection \<open>The course registry\<close>

text \<open>
  \<open>COURSES\<close> maps a course key to its configuration. The object literal keeps its keys
  in the order written, so the registry is an association list. A schedule's \<open>id\<close> may
  be missing; the server then fills it in (field \<open>id'\<close>, the name \<open>id\<close> being taken).
\<close>

record schedule =
  id' :: "int option"
  label :: string

record course_config =
  name :: string
  courseId :: int
  schedules :: "schedule list"
  bookingUrl :: string

type_synonym registry = "(string \<times> course_config) list"

definition COURSES :: registry where
  "COURSES =
    [(''lafortune'',
        \<lparr>name = ''LaFortune Park'', courseId = 20922,
         schedules = [\<lparr>id' = Some 6194, label = ''Championship (18 holes)''\<rparr>],
         bookingUrl = ''https://foreupsoftware.com/index.php/booking/20922/6194#teetimes''\<rparr>),
     (''battlecreek'',
        \<lparr>name = ''Battle Creek'', courseId = 22756,
         schedules = [\<lparr>id' = Some 11838, label = ''Battle Creek''\<rparr>],
         bookingUrl = ''https://foreupsoftware.com/index.php/booking/index/22756#teetimes''\<rparr>),
     (''stonecreek'',
        \<lparr>name = ''Page Belcher - Stone Creek'', courseId = 22842,
         schedules = [\<lparr>id' = Some 12128, label = ''Stone Creek''\<rparr>],
         bookingUrl = ''https://foreupsoftware.com/index.php/booking/22842/12128#/teetimes''\<rparr>),
     (''oldepage'',
        \<lparr>name = ''Page Belcher - Olde Page'', courseId = 22842,
         schedules = [\<lparr>id' = Some 12126, label = ''Olde Page''\<rparr>],
         bookingUrl = ''https://foreupsoftware.com/index.php/booking/22842/12126#/teetimes''\<rparr>),
     (''cherokeehills'',
        \<lparr>name = ''Cherokee Hills'', courseId = 21188,
         schedules = [\<lparr>id' = Some 7193, label = ''Cherokee Hills''\<rparr>],
         bookingUrl = ''https://foreupsoftware.com/index.php/booking/21188/7193#/teetimes''\<rparr>),
     (''southlakes'',
        \<lparr>name = ''South Lakes'', courseId = 20923,
         schedules = [\<lparr>id' = Some 6195, label = ''South Lakes''\<rparr>],
         bookingUrl = ''https://foreupsoftware.com/index.php/booking/20923/6195#/teetimes''\<rparr>)]"

text \<open>
  \<open>COURSES[courseKey]\<close> on a plain object: an own key gives its configuration; a name
  that every object inherits from \<open>Object.prototype\<close> gives that inherited member, which
  is truthy and has no \<open>schedules\<close>; any other name gives \<open>undefined\<close>.
\<close>

definition object_prototype_keys :: "string list" where
  "object_prototype_keys =
    [''constructor'', ''__defineGetter__'', ''__defineSetter__'', ''hasOwnProperty'',
     ''__lookupGetter__'', ''__lookupSetter__'', ''isPrototypeOf'',
     ''propertyIsEnumerable'', ''toString'', ''valueOf'', ''__proto__'',
     ''toLocaleString'']"

datatype 'a property = Own 'a | Inherited | Missing

definition lookup_course :: "registry \<Rightarrow> string \<Rightarrow> course_config property" where
  "lookup_course reg k =
     (case map_of reg k of
        Some c \<Rightarrow> Own c
      | None \<Rightarrow> if k \<in> set object_prototype_keys then Inherited else Missing)"

text \<open>\<open>schedule.id = scheduleId\<close> for the schedule at index \<open>i\<close> of course \<open>k\<close>.\<close>

definition set_schedule_id :: "string \<Rightarrow> nat \<Rightarrow> int \<Rightarrow> registry \<Rightarrow> registry" where
  "set_schedule_id k i n reg =
     AList.map_entry k
       (\<lambda>c. c\<lparr>schedules := (schedules c)[i := (schedules c ! i)\<lparr>id' := Some n\<rparr>]\<rparr>) reg"

subsection \<open>Tee-time records, the cache, the upstream\<close>

record tee_time =
  course :: string
  courseKey :: string
  scheduleLabel :: string
  time :: jsval
  available_spots :: jsval
  green_fee :: jsval
  cart_fee :: jsval
  players :: jsval
  holes :: jsval
  bookingUrl' :: string

text \<open>
  The one \<open>NodeCache\<close> holds two families of keys: \<open>schedule_...\<close> with a number and
  \<open>times_...\<close> with an array of records. No key belongs to both families, so the state
  keeps one store for each. An entry carries the time in milliseconds at which it
  expires: \<open>set\<close> with a time to live in seconds, \<open>get\<close> gives nothing once the clock
  is past the expiry.
\<close>

type_synonym 'v store = "(string \<times> 'v \<times> nat) list"

definition cache_get :: "nat \<Rightarrow> 'v store \<Rightarrow> string \<Rightarrow> 'v option" where
  "cache_get now c k =
     (case map_of c k of
        None \<Rightarrow> None
      | Some (v, t) \<Rightarrow> if t < now then None else Some v)"

definition cache_set :: "nat \<Rightarrow> nat \<Rightarrow> string \<Rightarrow> 'v \<Rightarrow> 'v store \<Rightarrow> 'v store" where
  "cache_set now ttl k v c = (k, v, now + ttl * 1000) # c"

text \<open>
  What \<open>axios.get\<close> gives: an exception (network failure, timeout, error status) or a
  response with its \<open>data\<close>. The upstream is a pair of functions, one per endpoint; the
  argument of the booking page is the facility id, the arguments of the times endpoint
  are the \<open>Referer\<close> header and the query's \<open>schedule_id\<close>, \<open>date\<close> and \<open>players\<close>
  (every other header and parameter is a constant). While one call of the server runs,
  the upstream answers a given query in one way; from one call to the next it may
  change.
\<close>

datatype http_result = Failed | Response jsval

record upstream =
  booking_page :: "int \<Rightarrow> http_result"
  times_endpoint :: "string \<Rightarrow> int \<Rightarrow> string \<Rightarrow> int option \<Rightarrow> http_result"

datatype call = GetBookingPage int | GetTimes string int string "int option"

text \<open>
  The server's state: the registry (whose schedule ids are mutable), the two stores of
  the cache, and the requests sent to the upstream so far, oldest first.
\<close>

record server =
  registry :: registry
  id_cache :: "int store"
  times_cache :: "tee_time list store"
  outbound :: "call list"

definition initial :: server where
  "initial = \<lparr>registry = COURSES, id_cache = [], times_cache = [], outbound = []\<rparr>"

subsection \<open>discoverScheduleId\<close>

text \<open>
  The two regular expressions are sequences of three kinds of items: a literal, \<open>\s*\<close>
  and the capturing group \<open>(\d+)\<close>. Each starred or plussed class is followed by an item
  that starts outside the class, so the greedy match never backtracks: \<open>match_here\<close>
  takes the longest run and goes on. Its third argument is the text captured so far.
  \<open>search\<close> is \<open>String.prototype.match\<close> without the \<open>g\<close> flag: the match at the
  leftmost position, and of that match the captured digits.
\<close>

datatype item = Lit string | Spaces | Digits

fun match_here :: "item list \<Rightarrow> string \<Rightarrow> string \<Rightarrow> string option" where
  "match_here [] s cap = Some cap"
| "match_here (Lit l # p) s cap =
     (if take (length l) s = l then match_here p (drop (length l) s) cap else None)"
| "match_here (Spaces # p) s cap = match_here p (dropWhile isSpace s) cap"
| "match_here (Digits # p) s cap =
     (if takeWhile isDigit s = [] then None
      else match_here p (dropWhile isDigit s) (takeWhile isDigit s))"

fun search :: "item list \<Rightarrow> string \<Rightarrow> string option" where
  "search p [] = match_here p [] []"
| "search p (c # cs) =
     (case match_here p (c # cs) [] of
        Some ds \<Rightarrow> Some ds
      | None \<Rightarrow> search p cs)"

definition schedule_id_regex :: "item list" where
  \<open>schedule_id_regex = [Lit ''"schedule_id"'', Spaces, Lit '':'', Spaces, Digits]\<close>

definition facility_regex :: "item list" where
  \<open>facility_regex =
     [Lit ''"id"'', Spaces, Lit '':'', Spaces, Digits, Spaces, Lit '','', Spaces,
      Lit ''"facility_id"'']\<close>

text \<open>
  The body of the \<open>try\<close> once the page has arrived: \<open>html.match\<close> is not a function
  unless \<open>resp.data\<close> is a string.
\<close>

definition scan_page :: "jsval \<Rightarrow> error + int option" where
  "scan_page data =
     (case data of
        JStr html \<Rightarrow>
          (case search schedule_id_regex html of
             Some ds \<Rightarrow> Inr (parseInt ds)
           | None \<Rightarrow>
               (case search facility_regex html of
                  Some ds \<Rightarrow> Inr (parseInt ds)
                | None \<Rightarrow> Inr None))
      | _ \<Rightarrow> Inl TypeError)"

definition discoverScheduleId :: "upstream \<Rightarrow> int \<Rightarrow> server \<Rightarrow> int option \<times> server" where
  "discoverScheduleId up cid s =
     (let s' = s\<lparr>outbound := outbound s @ [GetBookingPage cid]\<rparr>
      in case booking_page up cid of
           Failed \<Rightarrow> (None, s')
         | Response data \<Rightarrow>
             (case scan_page data of
                Inl err \<Rightarrow> (None, s')
              | Inr found \<Rightarrow> (found, s')))"

text \<open>
  The two patterns as the specification words them, for a text that starts with the
  field: \<open>"schedule_id": <digits>\<close>, the digits being the whole run, and
  \<open>"id": <digits>\<close> followed by a comma and the \<open>"facility_id"\<close> key, white space allowed
  around the colon and the comma.
\<close>

definition schedule_id_field :: "string \<Rightarrow> string \<Rightarrow> bool" where
  \<open>schedule_id_field s ds =
     (\<exists>ws1 ws2 rest.
        s = ''"schedule_id"'' @ ws1 @ '':'' @ ws2 @ ds @ rest \<and>
        list_all isSpace ws1 \<and> list_all isSpace ws2 \<and>
        ds \<noteq> [] \<and> list_all isDigit ds \<and> (rest = [] \<or> \<not> isDigit (hd rest)))\<close>

definition facility_field :: "string \<Rightarrow> string \<Rightarrow> bool" where
  \<open>facility_field s ds =
     (\<exists>ws1 ws2 ws3 ws4 rest.
        s = ''"id"'' @ ws1 @ '':'' @ ws2 @ ds @ ws3 @ '','' @ ws4 @ ''"facility_id"'' @ rest \<and>
        list_all isSpace ws1 \<and> list_all isSpace ws2 \<and>
        list_all isSpace ws3 \<and> list_all isSpace ws4 \<and>
        ds \<noteq> [] \<and> list_all isDigit ds)\<close>

text \<open>The field is found first at position \<open>i\<close> of the page.\<close>

definition first_at :: "(string \<Rightarrow> string \<Rightarrow> bool) \<Rightarrow> string \<Rightarrow> nat \<Rightarrow> string \<Rightarrow> bool" where
  "first_at fld html i ds =
     (i \<le> length html \<and> fld (drop i html) ds \<and>
      (\<forall>j<i. \<forall>ds'. \<not> fld (drop j html) ds'))"

definition nowhere :: "(string \<Rightarrow> string \<Rightarrow> bool) \<Rightarrow> string \<Rightarrow> bool" where
  "nowhere fld html = (\<forall>j ds'. \<not> fld (drop j html) ds')"

subsection \<open>fetchTeeTimes\<close>

text \<open>
  Reading a property of a slot: \<open>null\<close> and \<open>undefined\<close> have none (a \<open>TypeError\<close>),
  an object has those of its JSON text, any other value has none of the six names the
  server reads.
\<close>

definition field :: "jsval \<Rightarrow> string \<Rightarrow> jsval" where
  "field v k =
     (case v of
        JObj kvs \<Rightarrow> (case map_of kvs k of None \<Rightarrow> JUndefined | Some x \<Rightarrow> x)
      | _ \<Rightarrow> JUndefined)"

definition slot_record :: "string \<Rightarrow> course_config \<Rightarrow> schedule \<Rightarrow> jsval \<Rightarrow> error + tee_time" where
  "slot_record k crs sch slot =
     (if slot = JUndefined \<or> slot = JNull then Inl TypeError
      else Inr \<lparr>course = name crs,
                courseKey = k,
                scheduleLabel = label sch,
                time = field slot ''time'',
                available_spots = field slot ''available_spots'',
                green_fee = field slot ''green_fee'',
                cart_fee = field slot ''cart_fee'',
                players = (if truthy (field slot ''players'') then field slot ''players''
                           else JArr []),
                holes = field slot ''holes'',
                bookingUrl' = bookingUrl crs\<rparr>)"

text \<open>\<open>Array.prototype.map\<close> with a callback that may throw.\<close>

fun map_slots :: "(jsval \<Rightarrow> error + 'b) \<Rightarrow> jsval list \<Rightarrow> error + 'b list" where
  "map_slots f [] = Inr []"
| "map_slots f (x # xs) =
     (case f x of
        Inl err \<Rightarrow> Inl err
      | Inr y \<Rightarrow> (case map_slots f xs of Inl err \<Rightarrow> Inl err | Inr ys \<Rightarrow> Inr (y # ys)))"

definition schedule_key :: "int \<Rightarrow> string" where
  "schedule_key cid = ''schedule_'' @ show_int cid"

definition times_key :: "string \<Rightarrow> int \<Rightarrow> string \<Rightarrow> int option \<Rightarrow> string" where
  "times_key k n d pl =
     ''times_'' @ k @ ''_'' @ show_int n @ ''_'' @ d @ ''_'' @ show_num pl"

text \<open>
  The first half of the loop body: the schedule's own id, else the id cached for the
  facility, else discovery, whose result, when truthy, is cached for 24 hours and written
  into the registry. \<open>k\<close> is the course key, \<open>i\<close> the index of the schedule.
\<close>

definition resolveScheduleId ::
  "upstream \<Rightarrow> nat \<Rightarrow> string \<Rightarrow> course_config \<Rightarrow> nat \<Rightarrow> schedule \<Rightarrow> server \<Rightarrow> int option \<times> server" where
  "resolveScheduleId up now k crs i sch s =
     (if truthy_num (id' sch) then (id' sch, s)
      else if truthy_num (cache_get now (id_cache s) (schedule_key (courseId crs)))
      then (cache_get now (id_cache s) (schedule_key (courseId crs)), s)
      else (case discoverScheduleId up (courseId crs) s of
              (None, s1) \<Rightarrow> (None, s1)
            | (Some n, s1) \<Rightarrow>
                if n \<noteq> 0
                then (Some n,
                      s1\<lparr>id_cache := cache_set now 86400 (schedule_key (courseId crs)) n (id_cache s1),
                         registry := set_schedule_id k i n (registry s1)\<rparr>)
                else (Some n, s1)))"

text \<open>
  The second half: nothing for a schedule without an id; the cached records when the
  times cache has them; else the upstream's answer, normalised, cached for 5 minutes
  and appended. An exception inside the \<open>try\<close> leaves \<open>results\<close> and the cache as
  they were.
\<close>

definition fetchSchedule ::
  "upstream \<Rightarrow> nat \<Rightarrow> string \<Rightarrow> course_config \<Rightarrow> string \<Rightarrow> int option \<Rightarrow> nat \<Rightarrow> schedule \<Rightarrow>
     tee_time list \<Rightarrow> server \<Rightarrow> tee_time list \<times> server" where
  "fetchSchedule up now k crs d pl i sch results s =
     (case resolveScheduleId up now k crs i sch s of
        (None, s1) \<Rightarrow> (results, s1)
      | (Some n, s1) \<Rightarrow>
          if n = 0 then (results, s1)
          else (case cache_get now (times_cache s1) (times_key k n d pl) of
                  Some cached \<Rightarrow> (results @ cached, s1)
                | None \<Rightarrow>
                    (let s2 = s1\<lparr>outbound := outbound s1 @ [GetTimes (bookingUrl crs) n d pl]\<rparr>
                     in case times_endpoint up (bookingUrl crs) n d pl of
                          Failed \<Rightarrow> (results, s2)
                        | Response data \<Rightarrow>
                            (case map_slots (slot_record k crs sch)
                                    (case data of JArr slots \<Rightarrow> slots | _ \<Rightarrow> []) of
                               Inl err \<Rightarrow> (results, s2)
                             | Inr ts \<Rightarrow>
                                 (results @ ts,
                                  s2\<lparr>times_cache :=
                                       cache_set now 300 (times_key k n d pl) ts (times_cache s2)\<rparr>)))))"

text \<open>The loop over \<open>course.schedules\<close>, from index \<open>i\<close> on.\<close>

fun fetchSchedules ::
  "upstream \<Rightarrow> nat \<Rightarrow> string \<Rightarrow> course_config \<Rightarrow> string \<Rightarrow> int option \<Rightarrow> nat \<Rightarrow> schedule list \<Rightarrow>
     tee_time list \<Rightarrow> server \<Rightarrow> tee_time list \<times> server" where
  "fetchSchedules up now k crs d pl i [] results s = (results, s)"
| "fetchSchedules up now k crs d pl i (sch # rest) results s =
     (case fetchSchedule up now k crs d pl i sch results s of
        (results', s') \<Rightarrow> fetchSchedules up now k crs d pl (Suc i) rest results' s')"

text \<open>
  \<open>fetchTeeTimes(courseKey, date, players)\<close>. For an inherited member \<open>course\<close> is
  truthy and \<open>course.schedules\<close> is \<open>undefined\<close>, which \<open>for ... of\<close> cannot iterate.
\<close>

definition fetchTeeTimes ::
  "upstream \<Rightarrow> nat \<Rightarrow> string \<Rightarrow> string \<Rightarrow> int option \<Rightarrow> server \<Rightarrow> (error + tee_time list) \<times> server" where
  "fetchTeeTimes up now k d pl s =
     (case lookup_course (registry s) k of
        Missing \<Rightarrow> (Inr [], s)
      | Inherited \<Rightarrow> (Inl TypeError, s)
      | Own crs \<Rightarrow>
          (case fetchSchedules up now k crs d pl 0 (schedules crs) [] s of
             (results, s') \<Rightarrow> (Inr results, s')))"

subsection \<open>GET /api/teetimes\<close>

text \<open>
  The query string as the handler reads it: each of \<open>date\<close>, \<open>players\<close> and
  \<open>courses\<close> is absent or a string.
\<close>

record query =
  q_date :: "string option"
  q_players :: "string option"
  q_courses :: "string option"

text \<open>The JSON body of the 200 answer (\<open>players'\<close> and \<open>count'\<close>: the names are taken).\<close>

record body =
  date :: string
  players' :: "int option"
  count' :: nat
  teetimes :: "tee_time list"

datatype response = Ok200 body | BadRequest400 string | ServerError500 string

text \<open>
  \<open>courseKeys.map(key => fetchTeeTimes(key.trim(), ...))\<close> joined by \<open>Promise.all\<close>.
  Every fetch runs to its end whatever the others do, and \<open>Promise.all\<close> gives the
  results in the order of the keys, or the exception of a fetch that threw. The model
  runs the fetches one after the other in the order of the keys: no two fetches, of one
  request or of two, overlap in time. In the code the fetches of one request overlap,
  each pausing while it waits for the upstream; the order in which the requests are
  sent, and how often a request is sent for a key that is listed twice, are therefore
  the model's own.
\<close>

fun fetchAll ::
  "upstream \<Rightarrow> nat \<Rightarrow> string \<Rightarrow> int option \<Rightarrow> string list \<Rightarrow> server \<Rightarrow>
     (error + tee_time list) list \<times> server" where
  "fetchAll up now d pl [] s = ([], s)"
| "fetchAll up now d pl (k # ks) s =
     (case fetchTeeTimes up now (trim k) d pl s of
        (r, s1) \<Rightarrow> (case fetchAll up now d pl ks s1 of (rs, s2) \<Rightarrow> (r # rs, s2)))"

fun promise_all :: "(error + 'a) list \<Rightarrow> error + 'a list" where
  "promise_all [] = Inr []"
| "promise_all (Inl err # rs) = Inl err"
| "promise_all (Inr x # rs) =
     (case promise_all rs of Inl err \<Rightarrow> Inl err | Inr xs \<Rightarrow> Inr (x # xs))"

text \<open>
  The handler sorts with two functions of the platform that are not part of the
  repository: \<open>String.prototype.localeCompare\<close>, whose order is the collation of the
  platform's locale, and \<open>Array.prototype.sort\<close>, whose algorithm is the engine's. The
  server takes both as a parameter; what the language promises of them is stated with
  the properties (\<open>collation\<close>, \<open>conforming\<close>).
\<close>

type_synonym comparator = "tee_time \<Rightarrow> tee_time \<Rightarrow> error + int"

type_synonym sorter = "comparator \<Rightarrow> tee_time list \<Rightarrow> error + tee_time list"

record engine =
  localeCompare :: "string \<Rightarrow> string \<Rightarrow> int"
  arraySort :: sorter

text \<open>The comparator of the sort: \<open>a.time.localeCompare\<close> exists on a string only.\<close>

definition compareTimes :: "engine \<Rightarrow> comparator" where
  "compareTimes pf a b =
     (if \<not> truthy (time a) \<or> \<not> truthy (time b) then Inr 0
      else (case time a of
              JStr s \<Rightarrow> Inr (localeCompare pf s (toString (time b)))
            | _ \<Rightarrow> Inl TypeError))"

definition courseKeys :: "server \<Rightarrow> string option \<Rightarrow> string list" where
  "courseKeys s courses =
     (case courses of
        None \<Rightarrow> map fst (registry s)
      | Some cs \<Rightarrow> if cs = [] then map fst (registry s) else split_on CHR '','' cs)"

definition parsePlayers :: "string option \<Rightarrow> int option" where
  "parsePlayers p = (case p of None \<Rightarrow> Some 2 | Some str \<Rightarrow> parseInt str)"

definition get_teetimes ::
  "engine \<Rightarrow> upstream \<Rightarrow> nat \<Rightarrow> query \<Rightarrow> server \<Rightarrow> response \<times> server" where
  "get_teetimes pf up now q s =
     (case q_date q of
        None \<Rightarrow> (BadRequest400 ''date parameter required (MM-DD-YYYY)'', s)
      | Some d \<Rightarrow>
          if d = [] then (BadRequest400 ''date parameter required (MM-DD-YYYY)'', s)
          else (case fetchAll up now d (parsePlayers (q_players q))
                       (courseKeys s (q_courses q)) s of
                  (results, s') \<Rightarrow>
                    (case promise_all results of
                       Inl err \<Rightarrow> (ServerError500 ''Failed to fetch tee times'', s')
                     | Inr rs \<Rightarrow>
                         (case arraySort pf (compareTimes pf) (concat rs) of
                            Inl err \<Rightarrow> (ServerError500 ''Failed to fetch tee times'', s')
                          | Inr allTimes \<Rightarrow>
                              (Ok200 \<lparr>date = d,
                                      players' = parsePlayers (q_players q),
                                      count' = length allTimes,
                                      teetimes = allTimes\<rparr>, s')))))"

subsection \<open>Example inputs\<close>

text \<open>
  A registry of three courses: \<open>a\<close> and \<open>b\<close> with one known schedule each, \<open>c\<close> with a
  schedule whose id is still to be discovered.
\<close>

definition three_courses :: registry where
  "three_courses =
    [(''a'', \<lparr>name = ''A'', courseId = 1,
              schedules = [\<lparr>id' = Some 5, label = ''L''\<rparr>], bookingUrl = ''u''\<rparr>),
     (''b'', \<lparr>name = ''B'', courseId = 2,
              schedules = [\<lparr>id' = Some 6, label = ''M''\<rparr>], bookingUrl = ''v''\<rparr>),
     (''c'', \<lparr>name = ''C'', courseId = 3,
              schedules = [\<lparr>id' = None, label = ''N''\<rparr>], bookingUrl = ''w''\<rparr>)]"

definition fresh :: server where
  "fresh = \<lparr>registry = three_courses, id_cache = [], times_cache = [], outbound = []\<rparr>"

definition slot_at :: "string \<Rightarrow> jsval" where
  "slot_at t = JObj [(''time'', JStr t)]"

text \<open>An upstream that is down, and one that answers for the schedules 5 and 6.\<close>

definition down :: upstream where
  "down = \<lparr>booking_page = (\<lambda>cid. Failed), times_endpoint = (\<lambda>ref n d pl. Failed)\<rparr>"

definition morning :: upstream where
  "morning =
     \<lparr>booking_page = (\<lambda>cid. Failed),
      times_endpoint = (\<lambda>ref n d pl.
        if n = 5 then Response (JArr [slot_at ''08:00''])
        else if n = 6 then Response (JArr [slot_at ''07:30''])
        else Failed)\<rparr>"

text \<open>
  An upstream whose answer for schedule 5 has a slot without a time between two slots
  that are out of order, and the three records made of these slots.
\<close>

definition gappy :: upstream where
  "gappy =
     \<lparr>booking_page = (\<lambda>cid. Failed),
      times_endpoint = (\<lambda>ref n d pl.
        if n = 5 then Response (JArr [slot_at ''09:00'', JObj [], slot_at ''08:00''])
        else Failed)\<rparr>"

text \<open>An upstream whose answer for schedule 5 has two slots, neither with a time.\<close>

definition timeless :: upstream where
  "timeless =
     \<lparr>booking_page = (\<lambda>cid. Failed),
      times_endpoint = (\<lambda>ref n d pl.
        if n = 5 then Response (JArr [JObj [(''holes'', JNum 18)], JObj [(''holes'', JNum 9)]])
        else Failed)\<rparr>"

definition record_a :: "jsval \<Rightarrow> tee_time" where
  "record_a t =
     \<lparr>course = ''A'', courseKey = ''a'', scheduleLabel = ''L'', time = t,
      available_spots = JUndefined, green_fee = JUndefined, cart_fee = JUndefined,
      players = JArr [], holes = JUndefined, bookingUrl' = ''u''\<rparr>"

definition record_b :: "jsval \<Rightarrow> tee_time" where
  "record_b t =
     \<lparr>course = ''B'', courseKey = ''b'', scheduleLabel = ''M'', time = t,
      available_spots = JUndefined, green_fee = JUndefined, cart_fee = JUndefined,
      players = JArr [], holes = JUndefined, bookingUrl' = ''v''\<rparr>"

definition ask :: "string \<Rightarrow> query" where
  "ask cs = \<lparr>q_date = Some ''d'', q_players = Some ''2'', q_courses = Some cs\<rparr>"

text \<open>
  An engine to run the server on. Its string comparison is the lexicographic comparison
  by code unit, which is how the specification reads the comparison of two times; the
  result is negative, zero or positive. It is one collation among those that
  \<open>String.prototype.localeCompare\<close> may be: the platform's own depends on its locale
  data (for one, it may put \<open>1:00\<close> before \<open>10:00\<close>, which this function does not).
\<close>

fun compare_code_units :: "string \<Rightarrow> string \<Rightarrow> int" where
  "compare_code_units [] [] = 0"
| "compare_code_units [] (y # ys) = - 1"
| "compare_code_units (x # xs) [] = 1"
| "compare_code_units (x # xs) (y # ys) =
     (if (of_char x :: nat) < of_char y then - 1
      else if (of_char y :: nat) < of_char x then 1
      else compare_code_units xs ys)"

text \<open>
  The engine's sort is a stable insertion sort: each element in turn moves left past
  the elements it compares below. \<open>sort_insert\<close> holds the sorted prefix reversed. An
  exception in the comparator ends the sort. It is one sort among those that
  \<open>Array.prototype.sort\<close> may be: for a consistent comparator every engine returns the
  stable sorted order, as this one does; for any other comparator the order, and the
  pairs on which the comparator is called, depend on the engine.
\<close>

fun sort_insert :: "('a \<Rightarrow> 'a \<Rightarrow> error + int) \<Rightarrow> 'a \<Rightarrow> 'a list \<Rightarrow> error + 'a list" where
  "sort_insert cmp x [] = Inr [x]"
| "sort_insert cmp x (e # es) =
     (case cmp x e of
        Inl err \<Rightarrow> Inl err
      | Inr order \<Rightarrow>
          if order < 0
          then (case sort_insert cmp x es of Inl err \<Rightarrow> Inl err | Inr r \<Rightarrow> Inr (e # r))
          else Inr (x # e # es))"

fun sort_from :: "('a \<Rightarrow> 'a \<Rightarrow> error + int) \<Rightarrow> 'a list \<Rightarrow> 'a list \<Rightarrow> error + 'a list" where
  "sort_from cmp acc [] = Inr (rev acc)"
| "sort_from cmp acc (x # xs) =
     (case sort_insert cmp x acc of
        Inl err \<Rightarrow> Inl err
      | Inr acc' \<Rightarrow> sort_from cmp acc' xs)"

definition insertion_sort :: "('a \<Rightarrow> 'a \<Rightarrow> error + int) \<Rightarrow> 'a list \<Rightarrow> error + 'a list" where
  "insertion_sort cmp xs = sort_from cmp [] xs"

definition reference :: engine where
  "reference = \<lparr>localeCompare = compare_code_units, arraySort = insertion_sort\<rparr>"

text \<open>
  An upstream whose booking page for facility 3 carries a \<open>schedule_id\<close> field, for
  facility 4 only an \<open>id\<close> before a \<open>facility_id\<close>, and which has times for schedule 42.
\<close>

definition pages :: upstream where
  \<open>pages =
     \<lparr>booking_page = (\<lambda>cid.
        if cid = 3 then Response (JStr ''{"schedule_id": 42}'')
        else if cid = 4 then Response (JStr ''{"id":7 , "facility_id":4}'')
        else Failed),
      times_endpoint = (\<lambda>ref n d pl.
        if n = 42 then Response (JArr [slot_at ''10:00'']) else Failed)\<rparr>\<close>

subsection \<open>Vocabulary of the properties\<close>

text \<open>
  A record has a time when its \<open>time\<close> is a string that is not empty; the comparator
  treats every other record as it treats one without a time, unless the value is truthy
  and not a string. \<open>plain_time\<close>: the time is a string or falsy.
\<close>

definition has_time :: "tee_time \<Rightarrow> bool" where
  "has_time r = (case time r of JStr t \<Rightarrow> t \<noteq> [] | _ \<Rightarrow> False)"

definition plain_time :: "tee_time \<Rightarrow> bool" where
  "plain_time r = (case time r of JStr t \<Rightarrow> True | v \<Rightarrow> \<not> truthy v)"

text \<open>
  Sorted ascending by time under a string comparison \<open>lc\<close>, read in the way most
  favourable to the server: only two times that are both strings are compared.
\<close>

definition time_le :: "(string \<Rightarrow> string \<Rightarrow> int) \<Rightarrow> jsval \<Rightarrow> jsval \<Rightarrow> bool" where
  "time_le lc u v =
     (case u of
        JStr a \<Rightarrow> (case v of JStr b \<Rightarrow> lc a b \<le> 0 | _ \<Rightarrow> True)
      | _ \<Rightarrow> True)"

definition ascending :: "(string \<Rightarrow> string \<Rightarrow> int) \<Rightarrow> tee_time list \<Rightarrow> bool" where
  "ascending lc ts = sorted_wrt (\<lambda>a b. time_le lc (time a) (time b)) ts"

text \<open>
  What the language promises of the platform's two functions. A collation orders the
  strings: the sign of the comparison flips with its arguments, and \<open>at most\<close> is
  transitive.
\<close>

definition collation :: "(string \<Rightarrow> string \<Rightarrow> int) \<Rightarrow> bool" where
  "collation lc =
     ((\<forall>a b. (lc a b < 0) = (0 < lc b a)) \<and>
      (\<forall>a b c. lc a b \<le> 0 \<longrightarrow> lc b c \<le> 0 \<longrightarrow> lc a c \<le> 0))"

text \<open>
  A comparator is consistent on the elements of an array when it returns a number for
  every two of them and these numbers order the elements: the sign flips with the
  arguments, and \<open>at most\<close> is transitive. \<open>order_of\<close> is the number returned, \<open>tied\<close>
  holds of two elements that compare equal.
\<close>

definition order_of :: "comparator \<Rightarrow> tee_time \<Rightarrow> tee_time \<Rightarrow> int" where
  "order_of cmp a b = (case cmp a b of Inl err \<Rightarrow> 0 | Inr n \<Rightarrow> n)"

definition returns :: "comparator \<Rightarrow> tee_time set \<Rightarrow> bool" where
  "returns cmp A = (\<forall>a\<in>A. \<forall>b\<in>A. \<exists>n. cmp a b = Inr n)"

definition consistent :: "comparator \<Rightarrow> tee_time set \<Rightarrow> bool" where
  "consistent cmp A =
     (returns cmp A \<and>
      (\<forall>a\<in>A. \<forall>b\<in>A. (order_of cmp a b < 0) = (0 < order_of cmp b a)) \<and>
      (\<forall>a\<in>A. \<forall>b\<in>A. \<forall>c\<in>A.
         order_of cmp a b \<le> 0 \<longrightarrow> order_of cmp b c \<le> 0 \<longrightarrow> order_of cmp a c \<le> 0))"

definition tied :: "comparator \<Rightarrow> tee_time \<Rightarrow> tee_time \<Rightarrow> bool" where
  "tied cmp a b = (cmp a b = Inr 0)"

text \<open>
  A sort rearranges: whatever the comparator, the array it returns has the elements of
  the array it was given, each as often. A sort conforms to the language when,
  moreover, it returns whenever the comparator returns on the elements, and for a
  comparator that is consistent on the elements the array returned is in the
  comparator's order and elements that compare equal are in the order they had. Of a
  comparator that is not consistent the language promises no order.
\<close>

definition rearranges :: "sorter \<Rightarrow> bool" where
  "rearranges srt = (\<forall>cmp xs ys. srt cmp xs = Inr ys \<longrightarrow> mset ys = mset xs)"

definition conforming :: "sorter \<Rightarrow> bool" where
  "conforming srt =
     (rearranges srt \<and>
      (\<forall>cmp xs. returns cmp (set xs) \<longrightarrow> (\<exists>ys. srt cmp xs = Inr ys)) \<and>
      (\<forall>cmp xs ys. consistent cmp (set xs) \<longrightarrow> srt cmp xs = Inr ys \<longrightarrow>
         sorted_wrt (\<lambda>a b. order_of cmp a b \<le> 0) ys \<and>
         (\<forall>a\<in>set xs. filter (tied cmp a) ys = filter (tied cmp a) xs)))"

text \<open>The number that a run of decimal digits writes.\<close>

definition decimal :: "string \<Rightarrow> nat" where
  "decimal ds = foldl (\<lambda>a c. a * 10 + (of_char c - 48)) 0 ds"

text \<open>
  The upstream answers the times query of a schedule: a response arrives and its slots
  are normalised without an exception. The times cache has nothing live for the query
  of a schedule.
\<close>

definition answered :: "upstream \<Rightarrow> string \<Rightarrow> course_config \<Rightarrow> string \<Rightarrow> int option \<Rightarrow> schedule \<Rightarrow> bool" where
  "answered up k crs d pl sch =
     (case id' sch of
        None \<Rightarrow> False
      | Some n \<Rightarrow>
          (case times_endpoint up (bookingUrl crs) n d pl of
             Failed \<Rightarrow> False
           | Response data \<Rightarrow>
               (case map_slots (slot_record k crs sch) (case data of JArr slots \<Rightarrow> slots | _ \<Rightarrow> []) of
                  Inl err \<Rightarrow> False
                | Inr ts \<Rightarrow> True)))"

definition missed :: "nat \<Rightarrow> server \<Rightarrow> string \<Rightarrow> string \<Rightarrow> int option \<Rightarrow> schedule \<Rightarrow> bool" where
  "missed now s k d pl sch =
     (case id' sch of
        None \<Rightarrow> False
      | Some n \<Rightarrow> cache_get now (times_cache s) (times_key k n d pl) = None)"

text \<open>An entry of the key that is live at \<open>t1\<close> is still live at \<open>t2\<close>.\<close>

definition keeps :: "nat \<Rightarrow> nat \<Rightarrow> 'v store \<Rightarrow> string \<Rightarrow> bool" where
  "keeps t1 t2 c key = (\<forall>v e. map_of c key = Some (v, e) \<longrightarrow> t1 \<le> e \<longrightarrow> t2 \<le> e)"

text \<open>
  What discovery finds for a facility, which depends on the upstream alone; how often
  the booking page of a facility has been requested; the id cache holds the id \<open>n\<close>
  for a facility at least until the time \<open>T\<close>.
\<close>

definition discovered :: "upstream \<Rightarrow> int \<Rightarrow> int option" where
  "discovered up cid =
     (case booking_page up cid of
        Failed \<Rightarrow> None
      | Response data \<Rightarrow> (case scan_page data of Inl err \<Rightarrow> None | Inr found \<Rightarrow> found))"

definition pages_fetched :: "int \<Rightarrow> server \<Rightarrow> nat" where
  "pages_fetched cid s = length (filter (\<lambda>c. c = GetBookingPage cid) (outbound s))"


text \<open>
  A series of calls of \<open>fetchTeeTimes\<close>, each with the upstream and the clock of its
  moment, the course key, the date and the party size.
\<close>

type_synonym fetch = "upstream \<times> nat \<times> string \<times> string \<times> int option"


text \<open>
  What a request may do to the registry: every course keeps its key, name, facility and
  booking link, every schedule its label; the id of a schedule stays, or goes from
  unknown (the test \<open>!scheduleId\<close>) to the truthy value that discovery finds for the
  facility.
\<close>

definition sched_step :: "upstream \<Rightarrow> int \<Rightarrow> schedule \<Rightarrow> schedule \<Rightarrow> bool" where
  "sched_step up cid a b =
     (label b = label a \<and>
      (id' b = id' a \<or>
       (\<not> truthy_num (id' a) \<and> truthy_num (id' b) \<and> id' b = discovered up cid)))"

definition course_step :: "upstream \<Rightarrow> course_config \<Rightarrow> course_config \<Rightarrow> bool" where
  "course_step up a b =
     (name b = name a \<and> courseId b = courseId a \<and>
      course_config.bookingUrl b = course_config.bookingUrl a \<and>
      list_all2 (sched_step up (courseId a)) (schedules a) (schedules b))"

definition registry_step :: "upstream \<Rightarrow> registry \<Rightarrow> registry \<Rightarrow> bool" where
  "registry_step up reg reg' =
     list_all2 (\<lambda>x y. fst y = fst x \<and> course_step up (snd x) (snd y)) reg reg'"

text \<open>
  While the loop is at index \<open>i\<close> of the schedules it read at its start (\<open>crs\<close>), the
  registry's entry for the key has the same facility and, from \<open>i\<close> on, the same
  schedules.
\<close>

definition live_course :: "string \<Rightarrow> course_config \<Rightarrow> nat \<Rightarrow> registry \<Rightarrow> bool" where
  "live_course k crs i reg =
     (\<exists>c. map_of reg k = Some c \<and> courseId c = courseId crs \<and>
          length (schedules c) = length (schedules crs) \<and>
          (\<forall>j. i \<le> j \<and> j < length (schedules crs) \<longrightarrow> schedules c ! j = schedules crs ! j))"

text \<open>
  A record belongs to the registry: its course key is a key of the registry, and its
  course name, its booking link and its schedule label are those of that key's
  configuration.
\<close>

definition record_ok :: "registry \<Rightarrow> tee_time \<Rightarrow> bool" where
  "record_ok reg r =
     (case map_of reg (courseKey r) of
        None \<Rightarrow> False
      | Some c \<Rightarrow>
          course r = name c \<and> bookingUrl' r = bookingUrl c \<and>
          scheduleLabel r \<in> set (map label (schedules c)))"

text \<open>Every record in the times cache belongs to the registry.\<close>

definition cache_ok :: "server \<Rightarrow> bool" where
  "cache_ok s = list_all (\<lambda>entry. list_all (record_ok (registry s)) (fst (snd entry))) (times_cache s)"

text \<open>Two registries with the same keys, names, booking links and schedule labels.\<close>

definition same_courses :: "registry \<Rightarrow> registry \<Rightarrow> bool" where
  "same_courses reg reg' =
     list_all2 (\<lambda>x y. fst y = fst x \<and> name (snd y) = name (snd x) \<and>
                  bookingUrl (snd y) = bookingUrl (snd x) \<and>
                  map label (schedules (snd y)) = map label (schedules (snd x))) reg reg'"

text \<open>
  The fetches of a request in the specification's words: one call of \<open>fetchTeeTimes\<close>
  for each course key of a list, with this very key, in the order of the list; the
  results of the calls in that order, and the state after the last call. As in
  \<open>fetchAll\<close>, each call runs to its end before the next.
\<close>

definition fan_out ::
  "upstream \<Rightarrow> nat \<Rightarrow> string \<Rightarrow> int option \<Rightarrow> string list \<Rightarrow> server \<Rightarrow>
     (error + tee_time list) list \<times> server" where
  "fan_out up now d pl ks s =
     foldl (\<lambda>acc k. case fetchTeeTimes up now k d pl (snd acc) of
                        (r, s') \<Rightarrow> (fst acc @ [r], s'))
       ([], s) ks"

text \<open>
  The answer made of the results of the fetches: 500 when a fetch or the sort threw,
  else 200 with the date, the party size and the sorted records of all the fetches.
\<close>

definition answer_of ::
  "engine \<Rightarrow> string \<Rightarrow> int option \<Rightarrow> (error + tee_time list) list \<Rightarrow> response" where
  "answer_of pf d pl results =
     (case promise_all results of
        Inl err \<Rightarrow> ServerError500 ''Failed to fetch tee times''
      | Inr rs \<Rightarrow>
          (case arraySort pf (compareTimes pf) (concat rs) of
             Inl err \<Rightarrow> ServerError500 ''Failed to fetch tee times''
           | Inr ts \<Rightarrow>
               Ok200 \<lparr>date = d, players' = pl, count' = length ts, teetimes = ts\<rparr>))"

text \<open>
  A key with no white space around it, and a key as it may stand between the commas of
  the \<open>courses\<close> parameter: white space, a key with no white space around it and no
  comma in it, white space.
\<close>

definition unpadded :: "string \<Rightarrow> bool" where
  "unpadded k = (k = [] \<or> (\<not> isSpace (hd k) \<and> \<not> isSpace (last k)))"

definition padded_key :: "string \<times> string \<times> string \<Rightarrow> bool" where
  "padded_key p =
     (case p of (l, k, r) \<Rightarrow>
        list_all isSpace l \<and> list_all isSpace r \<and> unpadded k \<and> CHR '','' \<notin> set k)"

definition pad :: "string \<times> string \<times> string \<Rightarrow> string" where
  "pad p = (case p of (l, k, r) \<Rightarrow> l @ k @ r)"

definition key_of :: "string \<times> string \<times> string \<Rightarrow> string" where
  "key_of p = (case p of (l, k, r) \<Rightarrow> k)"

text \<open>
  The states the server can be in: it starts with its registry and an empty cache, and
  every request to GET /api/teetimes, at any time, with any upstream and on any engine,
  takes it on.
\<close>

inductive reachable :: "registry \<Rightarrow> server \<Rightarrow> bool" for reg0 where
  start: "reachable reg0 \<lparr>registry = reg0, id_cache = [], times_cache = [], outbound = []\<rparr>"
| request: "reachable reg0 s \<Longrightarrow> reachable reg0 (snd (get_teetimes pf up t q s))"

text \<open>Every schedule of the registry has an id.\<close>

definition all_known :: "registry \<Rightarrow> bool" where
  "all_known reg = list_all (\<lambda>p. list_all (\<lambda>sch. truthy_num (id' sch)) (schedules (snd p))) reg"

section \<open>Properties\<close>

declare show_nat.simps [simp del]

lemmas example_defs =
  three_courses_def fresh_def slot_at_def down_def morning_def gappy_def timeless_def
  record_a_def record_b_def ask_def pages_def

subsection \<open>A request without a date\<close>

text \<open>
  C2. A request to GET /api/teetimes without the \<open>date\<close> parameter is answered with
  status 400 and a body that carries an error message; the server's state, and with it
  the list of requests sent to the upstream, is as it was: no fetch is attempted.
\<close>

theorem missing_date_400:
  "q_date q = None \<Longrightarrow>
     (\<exists>msg. fst (get_teetimes pf up now q s) = BadRequest400 msg) \<and>
     snd (get_teetimes pf up now q s) = s \<and>
     outbound (snd (get_teetimes pf up now q s)) = outbound s"
  by (simp add: get_teetimes_def)

theorem missing_date_400_witness:
  "q_date \<lparr>q_date = None, q_players = Some ''2'', q_courses = Some ''a,b''\<rparr> = None \<and>
   (\<exists>msg. fst (get_teetimes reference morning 0
       \<lparr>q_date = None, q_players = Some ''2'', q_courses = Some ''a,b''\<rparr> fresh) =
     BadRequest400 msg) \<and>
   outbound (snd (get_teetimes reference morning 0
       \<lparr>q_date = None, q_players = Some ''2'', q_courses = Some ''a,b''\<rparr> fresh)) = []"
  using missing_date_400 [of "\<lparr>q_date = None, q_players = Some ''2'', q_courses = Some ''a,b''\<rparr>"
      reference morning 0 fresh]
  by (simp add: fresh_def)

subsection \<open>The comparison by code unit is a collation\<close>

lemma compare_code_units_flip: "compare_code_units t s = - compare_code_units s t"
  by (induction s t rule: compare_code_units.induct) auto

lemma compare_code_units_Cons_le:
  "compare_code_units (x # xs) (y # ys) \<le> 0 \<longleftrightarrow>
     (of_char x :: nat) < of_char y \<or>
     ((of_char x :: nat) = of_char y \<and> compare_code_units xs ys \<le> 0)"
  by auto

lemma compare_code_units_trans:
  "compare_code_units a b \<le> 0 \<Longrightarrow> compare_code_units b c \<le> 0 \<Longrightarrow>
     compare_code_units a c \<le> 0"
proof (induction a b arbitrary: c rule: compare_code_units.induct)
  case 1
  then show ?case by simp
next
  case (2 y ys)
  then show ?case by (cases c) auto
next
  case (3 x xs)
  then show ?case by simp
next
  case (4 x xs y ys)
  show ?case
  proof (cases c)
    case Nil
    with 4 show ?thesis by simp
  next
    case (Cons z zs)
    from "4.prems"(1) have xy: "(of_char x :: nat) < of_char y \<or>
        ((of_char x :: nat) = of_char y \<and> compare_code_units xs ys \<le> 0)"
      by (simp only: compare_code_units_Cons_le)
    from "4.prems"(2) Cons have yz: "(of_char y :: nat) < of_char z \<or>
        ((of_char y :: nat) = of_char z \<and> compare_code_units ys zs \<le> 0)"
      by (simp only: compare_code_units_Cons_le)
    show ?thesis
    proof (cases "(of_char x :: nat) = of_char y \<and> (of_char y :: nat) = of_char z")
      case True
      with xy yz have "compare_code_units xs ys \<le> 0" "compare_code_units ys zs \<le> 0" by auto
      with "4.IH" True have "compare_code_units xs zs \<le> 0" by simp
      with True Cons show ?thesis by (simp only: compare_code_units_Cons_le) simp
    next
      case False
      with xy yz have "(of_char x :: nat) < of_char z" by auto
      with Cons show ?thesis by (simp only: compare_code_units_Cons_le) simp
    qed
  qed
qed

lemma collation_code_units: "collation compare_code_units"
  unfolding collation_def
proof (intro conjI allI impI)
  fix a b
  show "(compare_code_units a b < 0) = (0 < compare_code_units b a)"
    using compare_code_units_flip [of b a] by simp
next
  fix a b c
  assume "compare_code_units a b \<le> 0" "compare_code_units b c \<le> 0"
  then show "compare_code_units a c \<le> 0" by (rule compare_code_units_trans)
qed

subsection \<open>The insertion sort conforms to the language\<close>

text \<open>The sorted array is a rearrangement of the array.\<close>

lemma sort_insert_mset:
  "sort_insert cmp x acc = Inr acc' \<Longrightarrow> mset acc' = add_mset x (mset acc)"
  by (induction acc arbitrary: acc') (auto split: sum.splits if_splits)

lemma sort_insert_set:
  "sort_insert cmp x acc = Inr acc' \<Longrightarrow> set acc' = insert x (set acc)"
  by (drule sort_insert_mset) (metis set_mset_add_mset_insert set_mset_mset)

lemma sort_from_mset:
  "sort_from cmp acc xs = Inr ys \<Longrightarrow> mset ys = mset acc + mset xs"
  by (induction xs arbitrary: acc) (auto split: sum.splits dest!: sort_insert_mset)

lemma insertion_sort_mset: "insertion_sort cmp xs = Inr ys \<Longrightarrow> mset ys = mset xs"
  by (simp add: insertion_sort_def sort_from_mset)

lemma rearranges_insertion_sort: "rearranges insertion_sort"
  by (simp add: rearranges_def insertion_sort_mset)

text \<open>The sort returns when the comparator returns on the elements.\<close>

lemma sort_insert_returns:
  "\<forall>e\<in>set acc. \<exists>n. cmp x e = Inr n \<Longrightarrow> \<exists>acc'. sort_insert cmp x acc = Inr acc'"
proof (induction acc)
  case Nil
  then show ?case by simp
next
  case (Cons e es)
  then obtain n where "cmp x e = Inr n" by auto
  moreover from Cons obtain r where "sort_insert cmp x es = Inr r" by auto
  ultimately show ?case by simp
qed

lemma sort_from_returns:
  "returns cmp (set acc \<union> set xs) \<Longrightarrow> \<exists>ys. sort_from cmp acc xs = Inr ys"
proof (induction xs arbitrary: acc)
  case Nil
  then show ?case by simp
next
  case (Cons x xs)
  then have "\<forall>e\<in>set acc. \<exists>n. cmp x e = Inr n" by (simp add: returns_def)
  then have "\<exists>acc'. sort_insert cmp x acc = Inr acc'" by (rule sort_insert_returns)
  then obtain acc' where a: "sort_insert cmp x acc = Inr acc'" by blast
  from sort_insert_set [OF a] Cons.prems have "returns cmp (set acc' \<union> set xs)" by simp
  from Cons.IH [OF this] a show ?case by simp
qed

text \<open>
  For a consistent comparator each insertion keeps the prefix sorted, and the element
  inserted passes no element that compares equal to it.
\<close>

lemma order_of_Inr: "cmp a b = Inr n \<Longrightarrow> order_of cmp a b = n"
  by (simp add: order_of_def)

lemma consistent_flip:
  "consistent cmp A \<Longrightarrow> a \<in> A \<Longrightarrow> b \<in> A \<Longrightarrow> (order_of cmp a b < 0) = (0 < order_of cmp b a)"
  by (simp add: consistent_def)

lemma consistent_trans:
  "consistent cmp A \<Longrightarrow> a \<in> A \<Longrightarrow> b \<in> A \<Longrightarrow> c \<in> A \<Longrightarrow>
     order_of cmp a b \<le> 0 \<Longrightarrow> order_of cmp b c \<le> 0 \<Longrightarrow> order_of cmp a c \<le> 0"
  unfolding consistent_def by blast

lemma consistent_ge:
  assumes "consistent cmp A" "a \<in> A" "b \<in> A" "\<not> order_of cmp a b < 0"
  shows "order_of cmp b a \<le> 0"
  using consistent_flip [OF assms(1) assms(2) assms(3)] assms(4) by simp

lemma sort_insert_sorted:
  assumes "consistent cmp A" "x \<in> A" "set acc \<subseteq> A"
    and "sorted_wrt (\<lambda>a b. order_of cmp b a \<le> 0) acc"
    and "sort_insert cmp x acc = Inr acc'"
  shows "sorted_wrt (\<lambda>a b. order_of cmp b a \<le> 0) acc'"
  using assms(3-)
proof (induction acc arbitrary: acc')
  case Nil
  then show ?case by auto
next
  case (Cons e es)
  from Cons.prems(1) have eA: "e \<in> A" and esA: "set es \<subseteq> A" by simp_all
  from Cons.prems(3) obtain n where c: "cmp x e = Inr n"
    by (auto split: sum.splits)
  then have o: "order_of cmp x e = n" by (rule order_of_Inr)
  show ?case
  proof (cases "n < 0")
    case True
    with c Cons.prems(3) obtain r where r: "sort_insert cmp x es = Inr r"
      and acc': "acc' = e # r"
      by (auto split: sum.splits)
    from Cons.IH [OF esA _ r] Cons.prems(2)
    have sr: "sorted_wrt (\<lambda>a b. order_of cmp b a \<le> 0) r" by simp
    from True o have "order_of cmp x e \<le> 0" by simp
    with sort_insert_set [OF r] sr Cons.prems(2) acc' show ?thesis by auto
  next
    case False
    with c Cons.prems(3) have acc': "acc' = x # e # es" by auto
    from False o have ex: "order_of cmp e x \<le> 0"
      using consistent_ge [OF assms(1) assms(2) eA] by simp
    have "order_of cmp y x \<le> 0" if "y \<in> set es" for y
    proof -
      from that Cons.prems(2) have "order_of cmp y e \<le> 0" by simp
      moreover from that esA have "y \<in> A" by auto
      ultimately show ?thesis
        using consistent_trans [OF assms(1) _ eA assms(2) _ ex] by blast
    qed
    with ex Cons.prems(2) acc' show ?thesis by simp
  qed
qed

lemma sort_from_sorted:
  assumes "consistent cmp A"
  shows "set xs \<subseteq> A \<Longrightarrow> set acc \<subseteq> A \<Longrightarrow>
     sorted_wrt (\<lambda>a b. order_of cmp b a \<le> 0) acc \<Longrightarrow>
     sort_from cmp acc xs = Inr ys \<Longrightarrow>
     sorted_wrt (\<lambda>a b. order_of cmp a b \<le> 0) ys"
proof (induction xs arbitrary: acc)
  case Nil
  then show ?case by (auto simp: sorted_wrt_rev)
next
  case (Cons x xs)
  then obtain acc' where a: "sort_insert cmp x acc = Inr acc'"
    and b: "sort_from cmp acc' xs = Inr ys"
    by (auto split: sum.splits)
  from Cons.prems have xA: "x \<in> A" and xsA: "set xs \<subseteq> A" by simp_all
  from sort_insert_set [OF a] xA Cons.prems(2) have a': "set acc' \<subseteq> A" by simp
  from sort_insert_sorted [OF assms xA Cons.prems(2) Cons.prems(3) a]
  show ?case using Cons.IH [OF xsA a' _ b] by simp
qed

lemma consistent_tied:
  assumes "consistent cmp A" "a \<in> A" "x \<in> A" "e \<in> A" "tied cmp a x" "tied cmp a e"
  shows "\<not> order_of cmp x e < 0"
proof
  assume lt: "order_of cmp x e < 0"
  from assms(5,6) have ax: "order_of cmp a x = 0" and ae: "order_of cmp a e = 0"
    by (simp_all add: tied_def order_of_def)
  from ax consistent_ge [OF assms(1) assms(2) assms(3)] have xa: "order_of cmp x a \<le> 0"
    by simp
  from ae consistent_ge [OF assms(1) assms(2) assms(4)] have ea: "order_of cmp e a \<le> 0"
    by simp
  from consistent_trans [OF assms(1) assms(4) assms(2) assms(3) ea] ax
  have "order_of cmp e x \<le> 0" by simp
  with consistent_flip [OF assms(1) assms(3) assms(4)] lt show False by simp
qed

lemma sort_insert_stable:
  assumes "consistent cmp A" "a \<in> A" "x \<in> A"
  shows "set acc \<subseteq> A \<Longrightarrow> sort_insert cmp x acc = Inr acc' \<Longrightarrow>
     filter (tied cmp a) acc' =
       (if tied cmp a x then x # filter (tied cmp a) acc else filter (tied cmp a) acc)"
proof (induction acc arbitrary: acc')
  case Nil
  then show ?case by auto
next
  case (Cons e es)
  from Cons.prems(1) have eA: "e \<in> A" and esA: "set es \<subseteq> A" by simp_all
  from Cons.prems(2) obtain n where c: "cmp x e = Inr n"
    by (auto split: sum.splits)
  then have o: "order_of cmp x e = n" by (rule order_of_Inr)
  show ?case
  proof (cases "n < 0")
    case True
    with c Cons.prems(2) obtain r where r: "sort_insert cmp x es = Inr r"
      and acc': "acc' = e # r"
      by (auto split: sum.splits)
    from True o consistent_tied [OF assms(1) assms(2) assms(3) eA]
    have "\<not> (tied cmp a x \<and> tied cmp a e)" by auto
    with Cons.IH [OF esA r] acc' show ?thesis by auto
  next
    case False
    with c Cons.prems(2) have "acc' = x # e # es" by auto
    then show ?thesis by simp
  qed
qed

lemma sort_from_stable:
  assumes "consistent cmp A" "a \<in> A"
  shows "set xs \<subseteq> A \<Longrightarrow> set acc \<subseteq> A \<Longrightarrow> sort_from cmp acc xs = Inr ys \<Longrightarrow>
     filter (tied cmp a) ys = filter (tied cmp a) (rev acc @ xs)"
proof (induction xs arbitrary: acc)
  case Nil
  then show ?case by (auto simp: rev_filter)
next
  case (Cons x xs)
  then obtain acc' where i: "sort_insert cmp x acc = Inr acc'"
    and b: "sort_from cmp acc' xs = Inr ys"
    by (auto split: sum.splits)
  from Cons.prems have xA: "x \<in> A" and xsA: "set xs \<subseteq> A" by simp_all
  from sort_insert_set [OF i] xA Cons.prems(2) have a': "set acc' \<subseteq> A" by simp
  from Cons.IH [OF xsA a' b] sort_insert_stable [OF assms xA Cons.prems(2) i]
  show ?case by (auto simp: rev_filter [symmetric])
qed

lemma conforming_insertion_sort: "conforming insertion_sort"
  unfolding conforming_def
proof (intro conjI allI impI ballI)
  show "rearranges insertion_sort" by (rule rearranges_insertion_sort)
next
  fix cmp :: comparator and xs
  assume "returns cmp (set xs)"
  then show "\<exists>ys. insertion_sort cmp xs = Inr ys"
    using sort_from_returns [of cmp "[]" xs] by (simp add: insertion_sort_def)
next
  fix cmp :: comparator and xs ys
  assume "consistent cmp (set xs)" "insertion_sort cmp xs = Inr ys"
  then show "sorted_wrt (\<lambda>a b. order_of cmp a b \<le> 0) ys"
    using sort_from_sorted [of cmp "set xs" xs "[]" ys] by (simp add: insertion_sort_def)
next
  fix cmp :: comparator and xs ys a
  assume "consistent cmp (set xs)" "insertion_sort cmp xs = Inr ys" "a \<in> set xs"
  then show "filter (tied cmp a) ys = filter (tied cmp a) xs"
    using sort_from_stable [of cmp "set xs" a xs "[]" ys] by (simp add: insertion_sort_def)
qed

subsection \<open>The comparator of the handler\<close>

text \<open>The comparator throws only for a truthy time that is not a string.\<close>

lemma compareTimes_plain:
  "plain_time a \<Longrightarrow> \<exists>n. compareTimes pf a b = Inr n"
  by (auto simp: plain_time_def compareTimes_def split: jsval.splits)

lemma compareTimes_returns: "\<forall>a\<in>A. plain_time a \<Longrightarrow> returns (compareTimes pf) A"
  by (simp add: returns_def compareTimes_plain)

text \<open>
  A record whose time is falsy compares equal to every record. When no record has a
  time the comparator is consistent: it ties all the records.
\<close>

lemma compareTimes_untimed:
  "\<not> truthy (time x) \<or> \<not> truthy (time e) \<Longrightarrow> compareTimes pf x e = Inr 0"
  by (auto simp: compareTimes_def)

lemma consistent_untimed:
  "\<forall>a\<in>A. \<not> truthy (time a) \<Longrightarrow> consistent (compareTimes pf) A"
  by (simp add: consistent_def returns_def order_of_def compareTimes_untimed)

text \<open>
  On records that all have a time the comparator is the string comparison, which is
  consistent when the platform's comparison is a collation.
\<close>

lemma compareTimes_timed:
  "has_time a \<Longrightarrow> has_time b \<Longrightarrow>
     compareTimes pf a b = Inr (localeCompare pf (toString (time a)) (toString (time b)))"
  by (auto simp: has_time_def compareTimes_def split: jsval.splits)

lemma order_of_timed:
  "has_time a \<Longrightarrow> has_time b \<Longrightarrow>
     order_of (compareTimes pf) a b = localeCompare pf (toString (time a)) (toString (time b))"
  by (simp add: order_of_def compareTimes_timed)

lemma time_le_timed:
  "has_time a \<Longrightarrow> has_time b \<Longrightarrow>
     time_le lc (time a) (time b) = (lc (toString (time a)) (toString (time b)) \<le> 0)"
  by (auto simp: has_time_def time_le_def split: jsval.splits)

lemma has_time_plain: "has_time r \<Longrightarrow> plain_time r"
  by (auto simp: has_time_def plain_time_def split: jsval.splits)

lemma consistent_timed:
  assumes "collation (localeCompare pf)" "\<forall>a\<in>A. has_time a"
  shows "consistent (compareTimes pf) A"
  unfolding consistent_def
proof (intro conjI ballI impI)
  show "returns (compareTimes pf) A"
    using assms(2) by (simp add: compareTimes_returns has_time_plain)
next
  fix a b
  assume "a \<in> A" "b \<in> A"
  with assms show "(order_of (compareTimes pf) a b < 0) = (0 < order_of (compareTimes pf) b a)"
    by (simp add: order_of_timed collation_def)
next
  fix a b c
  assume "a \<in> A" "b \<in> A" "c \<in> A"
    and "order_of (compareTimes pf) a b \<le> 0" "order_of (compareTimes pf) b c \<le> 0"
  with assms(2) have
    "localeCompare pf (toString (time a)) (toString (time b)) \<le> 0"
    "localeCompare pf (toString (time b)) (toString (time c)) \<le> 0"
    and h: "has_time a" "has_time c"
    by (simp_all add: order_of_timed)
  with assms(1) have "localeCompare pf (toString (time a)) (toString (time c)) \<le> 0"
    unfolding collation_def by blast
  with h show "order_of (compareTimes pf) a c \<le> 0" by (simp add: order_of_timed)
qed

subsection \<open>The order of the tee times in the answer\<close>

text \<open>Definitions to unfold when the server is run on a concrete input.\<close>

lemmas server_defs =
  get_teetimes_def courseKeys_def parsePlayers_def parseInt_def digitValue_def isSpace_def
  trim_def fetchTeeTimes_def lookup_course_def object_prototype_keys_def fetchSchedule_def
  resolveScheduleId_def discoverScheduleId_def truthy_num_def cache_get_def cache_set_def
  times_key_def schedule_key_def show_num_def show_int_def show_nat.simps slot_record_def
  field_def insertion_sort_def reference_def compareTimes_def set_schedule_id_def

lemma morning_fetch:
  "fetchAll morning 0 ''d'' (Some 2) [''a'', ''b''] fresh =
     ([Inr [record_a (JStr ''08:00'')], Inr [record_b (JStr ''07:30'')]],
      snd (fetchAll morning 0 ''d'' (Some 2) [''a'', ''b''] fresh))"
  by (simp add: server_defs example_defs)


text \<open>
  C1, as stated, fails: a slot without a time between a slot at 09:00 and a slot at 08:00
  is answered with status 200 and the three records in the order received, 09:00 before
  08:00. The comparator returns 0 whenever one of the two records has no time, so no
  comparison of a record with its neighbour tells the sort that the two timed records
  are out of order.
\<close>

theorem unsorted_around_gap:
  "fst (get_teetimes reference gappy 0 (ask ''a'') fresh) =
     Ok200 \<lparr>date = ''d'', players' = Some 2, count' = 3,
            teetimes = [record_a (JStr ''09:00''), record_a JUndefined, record_a (JStr ''08:00'')]\<rparr> \<and>
   \<not> ascending (localeCompare reference)
       [record_a (JStr ''09:00''), record_a JUndefined, record_a (JStr ''08:00'')]"
  by (simp add: server_defs example_defs ascending_def time_le_def)


text \<open>
  C1, amended. The engine is any whose sort conforms to the language and whose string
  comparison is a collation. For a request with a date whose fetches all return and
  whose records each have a time that is a string or falsy (absent, \<open>null\<close>, empty),
  the answer is 200 and its \<open>teetimes\<close> are a rearrangement of the fetched records.
  When every record has a non-empty string as its time, the \<open>teetimes\<close> are sorted
  ascending by time under the platform's string comparison. When no record has a time,
  the \<open>teetimes\<close> are the fetched records in their order. When some records have a
  time and some have none the comparator is not consistent, and the order of the
  records, timed or not, is the engine's choice.
\<close>

theorem teetimes_sorted:
  assumes "conforming (arraySort pf)" and "collation (localeCompare pf)"
    and "q_date q = Some d" and "d \<noteq> []"
    and "fetchAll up now d (parsePlayers (q_players q)) (courseKeys s (q_courses q)) s = (results, s')"
    and "promise_all results = Inr rs"
    and "list_all plain_time (concat rs)"
  shows "\<exists>ts. fst (get_teetimes pf up now q s) =
             Ok200 \<lparr>date = d, players' = parsePlayers (q_players q), count' = length ts,
                    teetimes = ts\<rparr> \<and>
           mset ts = mset (concat rs) \<and>
           (list_all has_time (concat rs) \<longrightarrow> ascending (localeCompare pf) ts) \<and>
           (list_all (\<lambda>r. \<not> truthy (time r)) (concat rs) \<longrightarrow> ts = concat rs)"
proof -
  let ?cmp = "compareTimes pf"
  let ?xs = "concat rs"
  from assms(7) have "returns ?cmp (set ?xs)"
    by (simp add: compareTimes_returns list_all_iff)
  with assms(1) obtain ts where ts: "arraySort pf ?cmp ?xs = Inr ts"
    unfolding conforming_def by blast
  with assms(1) have m: "mset ts = mset ?xs"
    unfolding conforming_def rearranges_def by blast
  then have st: "set ts = set ?xs" by (metis set_mset_mset)
  from ts assms have "fst (get_teetimes pf up now q s) =
      Ok200 \<lparr>date = d, players' = parsePlayers (q_players q), count' = length ts,
             teetimes = ts\<rparr>"
    by (simp add: get_teetimes_def)
  moreover have "ascending (localeCompare pf) ts" if h: "list_all has_time ?xs"
  proof -
    from h have hx: "\<forall>a\<in>set ?xs. has_time a" by (simp add: list_all_iff)
    from consistent_timed [OF assms(2) hx] assms(1) ts
    have "sorted_wrt (\<lambda>a b. order_of ?cmp a b \<le> 0) ts"
      unfolding conforming_def by blast
    moreover from hx st have "\<forall>r\<in>set ts. has_time r" by simp
    ultimately show ?thesis
      unfolding ascending_def
      by (auto elim!: sorted_wrt_mono_rel [rotated] simp: time_le_timed order_of_timed)
  qed
  moreover have "ts = ?xs" if u: "list_all (\<lambda>r. \<not> truthy (time r)) ?xs"
  proof (cases ?xs)
    case Nil
    with m show ?thesis by simp
  next
    case (Cons a as)
    from u have ux: "\<forall>a\<in>set ?xs. \<not> truthy (time a)" by (simp add: list_all_iff)
    from Cons have "a \<in> set ?xs" by simp
    with consistent_untimed [OF ux, of pf] assms(1) ts
    have f: "filter (tied ?cmp a) ts = filter (tied ?cmp a) ?xs"
      unfolding conforming_def by blast
    from ux st have "\<forall>b\<in>set ts. tied ?cmp a b" "\<forall>b\<in>set ?xs. tied ?cmp a b"
      by (simp_all add: tied_def compareTimes_untimed)
    with f show ?thesis by simp
  qed
  ultimately show ?thesis using m by blast
qed

theorem teetimes_sorted_witness:
  "conforming (arraySort reference) \<and> collation (localeCompare reference) \<and>
   fst (get_teetimes reference morning 0 (ask ''a,b'') fresh) =
     Ok200 \<lparr>date = ''d'', players' = Some 2, count' = 2,
            teetimes = [record_b (JStr ''07:30''), record_a (JStr ''08:00'')]\<rparr> \<and>
   ascending (localeCompare reference) [record_b (JStr ''07:30''), record_a (JStr ''08:00'')] \<and>
   fst (get_teetimes reference timeless 0 (ask ''a'') fresh) =
     Ok200 \<lparr>date = ''d'', players' = Some 2, count' = 2,
            teetimes = [(record_a JUndefined)\<lparr>holes := JNum 18\<rparr>,
                        (record_a JUndefined)\<lparr>holes := JNum 9\<rparr>]\<rparr>"
proof -
  have c: "conforming (arraySort reference)" "collation (localeCompare reference)"
    by (simp_all add: reference_def conforming_insertion_sort collation_code_units)
  have q: "q_date (ask ''a,b'') = Some ''d''" "''d'' \<noteq> []"
    "parsePlayers (q_players (ask ''a,b'')) = Some 2"
    "courseKeys fresh (q_courses (ask ''a,b'')) = [''a'', ''b'']"
    by (simp_all add: ask_def server_defs)
  have f: "fetchAll morning 0 ''d'' (parsePlayers (q_players (ask ''a,b'')))
      (courseKeys fresh (q_courses (ask ''a,b''))) fresh =
     ([Inr [record_a (JStr ''08:00'')], Inr [record_b (JStr ''07:30'')]],
      snd (fetchAll morning 0 ''d'' (Some 2) [''a'', ''b''] fresh))"
    using morning_fetch by (simp only: q)
  let ?rs = "[record_a (JStr ''08:00'')] # [record_b (JStr ''07:30'')] # []"
  have p: "promise_all [Inr [record_a (JStr ''08:00'')], Inr [record_b (JStr ''07:30'')]] =
      Inr ?rs"
    by simp
  have t: "list_all plain_time (concat ?rs)"
    by (simp add: plain_time_def record_a_def record_b_def)
  have h: "list_all has_time (concat ?rs)"
    by (simp add: has_time_def record_a_def record_b_def)
  from teetimes_sorted [OF c q(1) q(2) f p t] h obtain ts where
    r: "fst (get_teetimes reference morning 0 (ask ''a,b'') fresh) =
         Ok200 \<lparr>date = ''d'', players' = parsePlayers (q_players (ask ''a,b'')),
                count' = length ts, teetimes = ts\<rparr>"
    and a: "ascending (localeCompare reference) ts"
    by blast
  have e: "fst (get_teetimes reference morning 0 (ask ''a,b'') fresh) =
     Ok200 \<lparr>date = ''d'', players' = Some 2, count' = 2,
            teetimes = [record_b (JStr ''07:30''), record_a (JStr ''08:00'')]\<rparr>"
    by (simp add: server_defs example_defs)
  with r have "ts = [record_b (JStr ''07:30''), record_a (JStr ''08:00'')]" by simp
  with a have 1: "ascending (localeCompare reference)
      [record_b (JStr ''07:30''), record_a (JStr ''08:00'')]" by simp
  let ?us = "[(record_a JUndefined)\<lparr>holes := JNum 18\<rparr>, (record_a JUndefined)\<lparr>holes := JNum 9\<rparr>]"
  have q': "q_date (ask ''a'') = Some ''d''"
    "parsePlayers (q_players (ask ''a'')) = Some 2"
    "courseKeys fresh (q_courses (ask ''a'')) = [''a'']"
    by (simp_all add: ask_def server_defs)
  have f': "fetchAll timeless 0 ''d'' (parsePlayers (q_players (ask ''a'')))
      (courseKeys fresh (q_courses (ask ''a''))) fresh =
     ([Inr ?us], snd (fetchAll timeless 0 ''d'' (Some 2) [''a''] fresh))"
    unfolding q' by (simp add: prod_eq_iff server_defs example_defs)
  have p': "promise_all [Inr ?us] = Inr [?us]" by simp
  have t': "list_all plain_time (concat [?us])"
    by (simp add: plain_time_def record_a_def)
  have u': "list_all (\<lambda>r. \<not> truthy (time r)) (concat [?us])"
    by (simp add: record_a_def)
  from teetimes_sorted [OF c q'(1) q(2) f' p' t'] u' obtain us where
    "fst (get_teetimes reference timeless 0 (ask ''a'') fresh) =
         Ok200 \<lparr>date = ''d'', players' = parsePlayers (q_players (ask ''a'')),
                count' = length us, teetimes = us\<rparr>"
    and "us = concat [?us]"
    by blast
  then have 2: "fst (get_teetimes reference timeless 0 (ask ''a'') fresh) =
     Ok200 \<lparr>date = ''d'', players' = Some 2, count' = 2, teetimes = ?us\<rparr>"
    by (simp add: q')
  from c e 1 2 show ?thesis by simp
qed

subsection \<open>Course keys that the registry does not own\<close>

text \<open>A key that is neither the registry's own nor an inherited name yields no records.\<close>

lemma fetchTeeTimes_missing:
  "lookup_course (registry s) k = Missing \<Longrightarrow> fetchTeeTimes up now k d pl s = (Inr [], s)"
  by (simp add: fetchTeeTimes_def)

text \<open>
  For a key that the registry owns the call returns its records: no upstream answer
  makes it raise.
\<close>

lemma fetchTeeTimes_own:
  "lookup_course (registry s) k = Own crs \<Longrightarrow>
     \<exists>res. fst (fetchTeeTimes up now k d pl s) = Inr res"
  by (simp add: fetchTeeTimes_def split: prod.splits)

text \<open>
  A schedule whose times request fails, or whose answer cannot be normalised, adds
  nothing to the records collected so far and caches nothing; the loop goes on with the
  next schedule.
\<close>

lemma failed_schedule_skipped:
  assumes "id' sch = Some n" "n \<noteq> 0"
    and "cache_get now (times_cache s) (times_key k n d pl) = None"
    and "\<not> answered up k crs d pl sch"
  shows "fetchSchedule up now k crs d pl i sch res s =
     (res, s\<lparr>outbound := outbound s @ [GetTimes (bookingUrl crs) n d pl]\<rparr>)"
proof -
  have r: "resolveScheduleId up now k crs i sch s = (Some n, s)"
    using assms(1,2) by (simp add: resolveScheduleId_def truthy_num_def)
  from assms(1,4) show ?thesis
    by (auto simp: fetchSchedule_def r assms(2,3) answered_def Let_def
        split: http_result.splits sum.splits)
qed

text \<open>
  C3 at the request \<open>GET /api/teetimes?date=06-15-2025&courses=constructor\<close>.
  \<open>constructor\<close> is not a key of the registry, yet \<open>COURSES['constructor']\<close> is the
  inherited \<open>Object\<close> function: the guard \<open>if (!course) return []\<close> lets it through, the
  loop over its missing \<open>schedules\<close> throws, and the answer is status 500 instead of a
  200 with the key left out.
\<close>

theorem inherited_key_500:
  "fst (get_teetimes pf up now
          \<lparr>q_date = Some ''06-15-2025'', q_players = None, q_courses = Some ''constructor''\<rparr>
          initial) =
     ServerError500 ''Failed to fetch tee times''"
  by (simp add: get_teetimes_def courseKeys_def parsePlayers_def trim_def isSpace_def
      fetchTeeTimes_def lookup_course_def object_prototype_keys_def initial_def COURSES_def)

text \<open>
  C4 at the call \<open>fetchTeeTimes('constructor', '06-15-2025', 2)\<close>: the call raises a
  \<open>TypeError\<close>, for the same reason.
\<close>

theorem fetchTeeTimes_raises:
  "fetchTeeTimes up now ''constructor'' ''06-15-2025'' (Some 2) initial =
     (Inl TypeError, initial)"
  by (simp add: fetchTeeTimes_def lookup_course_def object_prototype_keys_def initial_def
      COURSES_def)

subsection \<open>Schedule discovery\<close>

lemma run_split:
  assumes "list_all P xs" and "t = [] \<or> \<not> P (hd t)"
  shows "takeWhile P (xs @ t) = xs" and "dropWhile P (xs @ t) = t"
proof -
  from assms(1) have all: "\<And>x. x \<in> set xs \<Longrightarrow> P x" by (simp add: list_all_iff)
  from assms(2) have "takeWhile P t = []" by (simp add: takeWhile_eq_Nil_iff)
  with all show "takeWhile P (xs @ t) = xs" by simp
  from assms(2) have "dropWhile P t = t" by (simp add: dropWhile_eq_self_iff)
  with all show "dropWhile P (xs @ t) = t" by simp
qed

lemma run_parts:
  "list_all P (takeWhile P s)" "dropWhile P s = [] \<or> \<not> P (hd (dropWhile P s))"
proof -
  show "list_all P (takeWhile P s)"
    by (auto simp: list_all_iff dest: set_takeWhileD)
  show "dropWhile P s = [] \<or> \<not> P (hd (dropWhile P s))"
    using hd_dropWhile [of P s] by blast
qed

lemma digit_not_space: "isDigit c \<Longrightarrow> \<not> isSpace c"
  by (auto simp: isDigit_def isSpace_def)

lemma digits_start:
  "ds \<noteq> [] \<Longrightarrow> list_all isDigit ds \<Longrightarrow> ds @ t = [] \<or> \<not> isSpace (hd (ds @ t))"
  by (cases ds) (auto simp: digit_not_space)

lemma literal_chars:
  "\<not> isSpace CHR '':''" "\<not> isDigit CHR '':''" "\<not> isSpace CHR '',''" "\<not> isDigit CHR '',''"
  \<open>\<not> isSpace CHR 0x22\<close> \<open>\<not> isDigit CHR 0x22\<close>
  by (simp_all add: isSpace_def isDigit_def)

lemma take_literal: "take (length l) s = l \<Longrightarrow> s = l @ drop (length l) s"
  by (metis append_take_drop_id)

lemma schedule_id_match_field:
  assumes \<open>match_here schedule_id_regex s [] = Some ds\<close>
  shows "schedule_id_field s ds"
proof -
  define s1 where \<open>s1 = drop (length ''"schedule_id"'') s\<close>
  define s3 where "s3 = drop (length '':'') (dropWhile isSpace s1)"
  define s4 where "s4 = dropWhile isSpace s3"
  from assms have a: \<open>take (length ''"schedule_id"'') s = ''"schedule_id"''\<close>
    and b: "take (length '':'') (dropWhile isSpace s1) = '':''"
    and c: "takeWhile isDigit s4 \<noteq> []"
    and d: "ds = takeWhile isDigit s4"
    unfolding schedule_id_regex_def s1_def s3_def s4_def
    by (auto split: if_splits)
  have e1: \<open>s = ''"schedule_id"'' @ s1\<close>
    unfolding s1_def using a by (rule take_literal)
  have e2: "s1 = takeWhile isSpace s1 @ '':'' @ s3"
    unfolding s3_def using take_literal [OF b] by (metis takeWhile_dropWhile_id)
  have e3: "s3 = takeWhile isSpace s3 @ ds @ dropWhile isDigit s4"
    unfolding d s4_def by simp
  have \<open>s = ''"schedule_id"'' @ takeWhile isSpace s1 @ '':'' @ takeWhile isSpace s3 @ ds @
      dropWhile isDigit s4\<close>
    using e1 e2 e3 by (metis append_assoc)
  moreover have "list_all isSpace (takeWhile isSpace s1)" "list_all isSpace (takeWhile isSpace s3)"
    "list_all isDigit ds" "dropWhile isDigit s4 = [] \<or> \<not> isDigit (hd (dropWhile isDigit s4))"
    unfolding d by (rule run_parts)+
  moreover have "ds \<noteq> []" using c d by simp
  ultimately show ?thesis
    unfolding schedule_id_field_def by blast
qed

lemma schedule_id_field_match:
  assumes "schedule_id_field s ds"
  shows \<open>match_here schedule_id_regex s [] = Some ds\<close>
proof -
  from assms obtain ws1 ws2 rest where
    s: \<open>s = ''"schedule_id"'' @ ws1 @ '':'' @ ws2 @ ds @ rest\<close>
    and w: "list_all isSpace ws1" "list_all isSpace ws2"
    and d: "ds \<noteq> []" "list_all isDigit ds" "rest = [] \<or> \<not> isDigit (hd rest)"
    unfolding schedule_id_field_def by blast
  have 1: "dropWhile isSpace (ws1 @ CHR '':'' # ws2 @ ds @ rest) = CHR '':'' # ws2 @ ds @ rest"
    using w(1) by (rule run_split) (simp add: literal_chars)
  have 2: "dropWhile isSpace (ws2 @ ds @ rest) = ds @ rest"
    using w(2) digits_start [OF d(1,2)] by (rule run_split)
  have 3: "takeWhile isDigit (ds @ rest) = ds" "dropWhile isDigit (ds @ rest) = rest"
    using d(2,3) by (rule run_split)+
  show ?thesis
    unfolding schedule_id_regex_def s
    by (simp add: 1 2 3 d del: dropWhile_append dropWhile_append1 dropWhile_append2)
qed


lemma spaces_start:
  "list_all isSpace ws \<Longrightarrow> \<not> isDigit c \<Longrightarrow> ws @ c # t = [] \<or> \<not> isDigit (hd (ws @ c # t))"
  by (cases ws) (auto simp: digit_not_space)

lemma facility_match_field:
  assumes \<open>match_here facility_regex s [] = Some ds\<close>
  shows "facility_field s ds"
proof -
  define s1 where \<open>s1 = drop (length ''"id"'') s\<close>
  define s3 where "s3 = drop (length '':'') (dropWhile isSpace s1)"
  define s4 where "s4 = dropWhile isSpace s3"
  define s5 where "s5 = dropWhile isDigit s4"
  define s7 where "s7 = drop (length '','') (dropWhile isSpace s5)"
  define s8 where "s8 = dropWhile isSpace s7"
  define rest where \<open>rest = drop (length ''"facility_id"'') s8\<close>
  from assms have a: \<open>take (length ''"id"'') s = ''"id"''\<close>
    and b: "take (length '':'') (dropWhile isSpace s1) = '':''"
    and c: "takeWhile isDigit s4 \<noteq> []"
    and d: "ds = takeWhile isDigit s4"
    and e: "take (length '','') (dropWhile isSpace s5) = '',''"
    and f: \<open>take (length ''"facility_id"'') s8 = ''"facility_id"''\<close>
    unfolding facility_regex_def s1_def s3_def s4_def s5_def s7_def s8_def
    by (auto split: if_splits)
  have e1: \<open>s = ''"id"'' @ s1\<close>
    unfolding s1_def using a by (rule take_literal)
  have e2: "s1 = takeWhile isSpace s1 @ '':'' @ s3"
    unfolding s3_def using take_literal [OF b] by (metis takeWhile_dropWhile_id)
  have e3: "s3 = takeWhile isSpace s3 @ ds @ s5"
    unfolding d s4_def s5_def by simp
  have e4: "s5 = takeWhile isSpace s5 @ '','' @ s7"
    unfolding s7_def using take_literal [OF e] by (metis takeWhile_dropWhile_id)
  have e5: \<open>s7 = takeWhile isSpace s7 @ ''"facility_id"'' @ rest\<close>
    unfolding rest_def s8_def using take_literal [OF f [unfolded s8_def]]
    by (metis takeWhile_dropWhile_id)
  have \<open>s = ''"id"'' @ takeWhile isSpace s1 @ '':'' @ takeWhile isSpace s3 @ ds @
      takeWhile isSpace s5 @ '','' @ takeWhile isSpace s7 @ ''"facility_id"'' @ rest\<close>
    using e1 e2 e3 e4 e5 by (metis append_assoc)
  moreover have "list_all isSpace (takeWhile isSpace s1)" "list_all isSpace (takeWhile isSpace s3)"
    "list_all isSpace (takeWhile isSpace s5)" "list_all isSpace (takeWhile isSpace s7)"
    "list_all isDigit ds"
    unfolding d by (rule run_parts)+
  moreover have "ds \<noteq> []" using c d by simp
  ultimately show ?thesis
    unfolding facility_field_def by blast
qed

lemma facility_field_match:
  assumes "facility_field s ds"
  shows \<open>match_here facility_regex s [] = Some ds\<close>
proof -
  from assms obtain ws1 ws2 ws3 ws4 rest where
    s: \<open>s = ''"id"'' @ ws1 @ '':'' @ ws2 @ ds @ ws3 @ '','' @ ws4 @ ''"facility_id"'' @ rest\<close>
    and w: "list_all isSpace ws1" "list_all isSpace ws2" "list_all isSpace ws3"
      "list_all isSpace ws4"
    and d: "ds \<noteq> []" "list_all isDigit ds"
    unfolding facility_field_def by blast
  define t4 where \<open>t4 = ''"facility_id"'' @ rest\<close>
  define t3 where "t3 = ws3 @ CHR '','' # ws4 @ t4"
  have 1: "dropWhile isSpace (ws1 @ CHR '':'' # ws2 @ ds @ t3) = CHR '':'' # ws2 @ ds @ t3"
    using w(1) by (rule run_split) (simp add: literal_chars)
  have 2: "dropWhile isSpace (ws2 @ ds @ t3) = ds @ t3"
    using w(2) digits_start [OF d(1,2)] by (rule run_split)
  have 3: "takeWhile isDigit (ds @ t3) = ds" "dropWhile isDigit (ds @ t3) = t3"
    unfolding t3_def using d(2) spaces_start [OF w(3) literal_chars(4)] by (rule run_split)+
  have 4: "dropWhile isSpace t3 = CHR '','' # ws4 @ t4"
    unfolding t3_def using w(3) by (rule run_split) (simp add: literal_chars)
  have 5: "dropWhile isSpace (ws4 @ t4) = t4"
    using w(4) by (rule run_split) (simp add: t4_def literal_chars)
  have 6: \<open>take (length ''"facility_id"'') t4 = ''"facility_id"''\<close>
    by (simp add: t4_def)
  have s': \<open>s = ''"id"'' @ ws1 @ CHR '':'' # ws2 @ ds @ t3\<close>
    by (simp add: s t3_def t4_def)
  show ?thesis
    unfolding facility_regex_def s'
    using 6 by (simp add: 1 2 3 4 5 d del: dropWhile_append dropWhile_append1 dropWhile_append2)
qed

lemma schedule_id_iff: \<open>match_here schedule_id_regex s [] = Some ds \<longleftrightarrow> schedule_id_field s ds\<close>
  using schedule_id_match_field schedule_id_field_match by blast

lemma facility_iff: \<open>match_here facility_regex s [] = Some ds \<longleftrightarrow> facility_field s ds\<close>
  using facility_match_field facility_field_match by blast

text \<open>\<open>search\<close> returns the match at the least position, if there is one.\<close>

lemma search_Some:
  "search p html = Some ds \<Longrightarrow>
     \<exists>i\<le>length html. match_here p (drop i html) [] = Some ds \<and>
       (\<forall>j<i. match_here p (drop j html) [] = None)"
proof (induction html)
  case Nil
  then show ?case by simp
next
  case (Cons c cs)
  show ?case
  proof (cases "match_here p (c # cs) []")
    case (Some a)
    with Cons.prems have "match_here p (drop 0 (c # cs)) [] = Some ds" by simp
    then show ?thesis by blast
  next
    case None
    with Cons obtain i where i: "i \<le> length cs" "match_here p (drop i cs) [] = Some ds"
      "\<forall>j<i. match_here p (drop j cs) [] = None"
      by auto
    have "\<forall>j<Suc i. match_here p (drop j (c # cs)) [] = None"
    proof (intro allI impI)
      fix j assume "j < Suc i"
      then show "match_here p (drop j (c # cs)) [] = None"
        using None i(3) by (cases j) auto
    qed
    with i(1,2) show ?thesis
      by (intro exI [of _ "Suc i"]) simp
  qed
qed

lemma search_None:
  "search p html = None \<Longrightarrow> match_here p (drop j html) [] = None"
proof (induction html arbitrary: j)
  case Nil
  then show ?case by simp
next
  case (Cons c cs)
  then show ?case
    by (cases j) (auto split: option.splits)
qed

lemma search_first:
  assumes "i \<le> length html" "match_here p (drop i html) [] = Some ds"
    "\<forall>j<i. match_here p (drop j html) [] = None"
  shows "search p html = Some ds"
proof (cases "search p html")
  case None
  from search_None [OF this, of i] assms(2) show ?thesis by simp
next
  case (Some ds')
  from search_Some [OF this] obtain k where k: "k \<le> length html"
    "match_here p (drop k html) [] = Some ds'" "\<forall>j<k. match_here p (drop j html) [] = None"
    by blast
  have "k = i"
  proof (rule ccontr)
    assume "k \<noteq> i"
    then consider "k < i" | "i < k" by linarith
    then show False
    proof cases
      case 1
      with assms(3) k(2) show False by simp
    next
      case 2
      with k(3) assms(2) show False by simp
    qed
  qed
  with k(2) assms(2) Some show ?thesis by simp
qed


lemma radix_prefix_digits:
  "list_all isDigit ds \<Longrightarrow> radix_prefix 10 ds = map (\<lambda>c. of_char c - 48) ds"
  by (induction ds) (auto simp: isDigit_def digitValue_def)

lemma parseInt_digits:
  assumes "ds \<noteq> []" "list_all isDigit ds"
  shows "parseInt ds = Some (int (decimal ds))"
proof -
  from assms obtain c cs where ds: "ds = c # cs" and c: "isDigit c" and cs: "list_all isDigit cs"
    by (cases ds) auto
  from c have 1: "\<not> isSpace c" by (rule digit_not_space)
  from c have 2: "c \<noteq> CHR ''-''" "c \<noteq> CHR ''+''" by (auto simp: isDigit_def)
  have 3: "take 2 ds \<noteq> ''0x''" "take 2 ds \<noteq> ''0X''"
    using cs unfolding ds by (cases cs; auto simp: isDigit_def)+
  have 4: "radix_prefix 10 ds = map (\<lambda>c. of_char c - 48) ds"
    using assms(2) by (rule radix_prefix_digits)
  have 5: "dropWhile isSpace ds = ds" using 1 ds by simp
  have 6: "take 1 ds \<noteq> ''-''" "take 1 ds \<noteq> ''+''" using 2 ds by simp_all
  show ?thesis
    unfolding parseInt_def Let_def 5
    using 3 6 assms(1) by (simp add: 4 decimal_def foldl_map)
qed

lemma first_at_match:
  assumes "\<And>s ds. match_here p s [] = Some ds \<longleftrightarrow> fld s ds"
  shows "first_at fld html i ds \<longleftrightarrow>
     i \<le> length html \<and> match_here p (drop i html) [] = Some ds \<and>
     (\<forall>j<i. match_here p (drop j html) [] = None)"
proof -
  have "match_here p s [] = None \<longleftrightarrow> (\<forall>ds'. \<not> fld s ds')" for s
    using assms [of s] by (cases "match_here p s []") auto
  then show ?thesis
    unfolding first_at_def using assms by simp
qed

lemma search_found:
  assumes "\<And>s ds. match_here p s [] = Some ds \<longleftrightarrow> fld s ds"
    and "first_at fld html i ds"
  shows "search p html = Some ds"
  using assms(2) unfolding first_at_match [of p fld, OF assms(1)]
  by (auto intro: search_first)

lemma search_nowhere:
  assumes "\<And>s ds. match_here p s [] = Some ds \<longleftrightarrow> fld s ds"
    and "nowhere fld html"
  shows "search p html = None"
proof (cases "search p html")
  case None
  then show ?thesis .
next
  case (Some ds)
  from search_Some [OF this] assms(1) obtain i where "fld (drop i html) ds" by blast
  with assms(2) show ?thesis by (simp add: nowhere_def)
qed

lemma field_digits:
  "schedule_id_field s ds \<Longrightarrow> ds \<noteq> [] \<and> list_all isDigit ds"
  "facility_field s ds \<Longrightarrow> ds \<noteq> [] \<and> list_all isDigit ds"
  by (auto simp: schedule_id_field_def facility_field_def)

text \<open>
  C5. \<open>discoverScheduleId\<close> sends one request for the facility's booking page and
  returns to its caller in every case. When the request fails, or the body is not text
  that can be scanned (the exception is caught), it returns \<open>null\<close>. Else it returns the
  number written by the digits of the first \<open>"schedule_id": <digits>\<close> field of the page;
  when the page has no such field, the digits of the first \<open>"id": <digits>\<close> field that
  is followed by a \<open>"facility_id"\<close> key; when it has neither, \<open>null\<close>. The number
  returned for a field is the value of its digits when that is at most \<open>2 ^ 53\<close>;
  beyond, the platform rounds, and all that is stated is that the result is not \<open>null\<close>.
\<close>

theorem discoverScheduleId_scans:
  assumes "discoverScheduleId up cid s = (r, s')"
  shows "s' = s\<lparr>outbound := outbound s @ [GetBookingPage cid]\<rparr> \<and>
     (booking_page up cid = Failed \<longrightarrow> r = None) \<and>
     (\<forall>data err. booking_page up cid = Response data \<and> scan_page data = Inl err \<longrightarrow> r = None) \<and>
     (\<forall>html. booking_page up cid = Response (JStr html) \<longrightarrow>
        (\<forall>i ds. first_at schedule_id_field html i ds \<longrightarrow>
           r \<noteq> None \<and> (decimal ds \<le> 2 ^ 53 \<longrightarrow> r = Some (int (decimal ds)))) \<and>
        (nowhere schedule_id_field html \<longrightarrow>
           (\<forall>i ds. first_at facility_field html i ds \<longrightarrow>
              r \<noteq> None \<and> (decimal ds \<le> 2 ^ 53 \<longrightarrow> r = Some (int (decimal ds))))) \<and>
        (nowhere schedule_id_field html \<and> nowhere facility_field html \<longrightarrow> r = None))"
proof (intro conjI allI impI)
  show "s' = s\<lparr>outbound := outbound s @ [GetBookingPage cid]\<rparr>"
    using assms by (auto simp: discoverScheduleId_def Let_def split: http_result.splits sum.splits)
next
  fix html i ds
  assume p: "booking_page up cid = Response (JStr html)"
    and f: "first_at schedule_id_field html i ds"
  from f have "search schedule_id_regex html = Some ds"
    by (rule search_found [OF schedule_id_iff])
  moreover from f have "parseInt ds = Some (int (decimal ds))"
    by (auto simp: first_at_def dest!: field_digits(1) intro: parseInt_digits)
  ultimately have "r = Some (int (decimal ds))"
    using assms p by (simp add: discoverScheduleId_def Let_def scan_page_def)
  then show "r \<noteq> None" by simp
next
  fix html i ds
  assume p: "booking_page up cid = Response (JStr html)"
    and n: "nowhere schedule_id_field html"
    and f: "first_at facility_field html i ds"
  from n have "search schedule_id_regex html = None"
    by (rule search_nowhere [OF schedule_id_iff])
  moreover from f have "search facility_regex html = Some ds"
    by (rule search_found [OF facility_iff])
  moreover from f have "parseInt ds = Some (int (decimal ds))"
    by (auto simp: first_at_def dest!: field_digits(2) intro: parseInt_digits)
  ultimately have "r = Some (int (decimal ds))"
    using assms p by (simp add: discoverScheduleId_def Let_def scan_page_def)
  then show "r \<noteq> None" by simp
next
  assume "booking_page up cid = Failed"
  with assms show "r = None" by (simp add: discoverScheduleId_def Let_def)
next
  fix data err
  assume "booking_page up cid = Response data \<and> scan_page data = Inl err"
  with assms show "r = None" by (simp add: discoverScheduleId_def Let_def)
next
  fix html i ds
  assume p: "booking_page up cid = Response (JStr html)"
    and f: "first_at schedule_id_field html i ds"
  from f have "search schedule_id_regex html = Some ds"
    by (rule search_found [OF schedule_id_iff])
  moreover from f have "parseInt ds = Some (int (decimal ds))"
    by (auto simp: first_at_def dest!: field_digits(1) intro: parseInt_digits)
  ultimately show "r = Some (int (decimal ds))"
    using assms p by (simp add: discoverScheduleId_def Let_def scan_page_def)
next
  fix html i ds
  assume p: "booking_page up cid = Response (JStr html)"
    and n: "nowhere schedule_id_field html"
    and f: "first_at facility_field html i ds"
  from n have "search schedule_id_regex html = None"
    by (rule search_nowhere [OF schedule_id_iff])
  moreover from f have "search facility_regex html = Some ds"
    by (rule search_found [OF facility_iff])
  moreover from f have "parseInt ds = Some (int (decimal ds))"
    by (auto simp: first_at_def dest!: field_digits(2) intro: parseInt_digits)
  ultimately show "r = Some (int (decimal ds))"
    using assms p by (simp add: discoverScheduleId_def Let_def scan_page_def)
next
  fix html
  assume p: "booking_page up cid = Response (JStr html)"
    and n: "nowhere schedule_id_field html \<and> nowhere facility_field html"
  from n have "search schedule_id_regex html = None" "search facility_regex html = None"
    by (auto intro: search_nowhere [OF schedule_id_iff] search_nowhere [OF facility_iff])
  then show "r = None"
    using assms p by (simp add: discoverScheduleId_def Let_def scan_page_def)
qed


lemma nowhere_search:
  assumes "\<And>s ds. match_here p s [] = Some ds \<longleftrightarrow> fld s ds"
  shows "nowhere fld html \<longleftrightarrow> search p html = None"
proof
  assume "nowhere fld html"
  then show "search p html = None" by (rule search_nowhere [OF assms])
next
  assume "search p html = None"
  then have "match_here p (drop j html) [] = None" for j by (rule search_None)
  then have "\<not> fld (drop j html) ds" for j ds
    using assms [of "drop j html" ds] by simp
  then show "nowhere fld html" by (simp add: nowhere_def)
qed

lemmas regex_defs = schedule_id_regex_def facility_regex_def isSpace_def isDigit_def

theorem discoverScheduleId_scans_witness:
  \<open>fst (discoverScheduleId pages 3 fresh) = Some 42 \<and>
   first_at schedule_id_field ''{"schedule_id": 42}'' 1 ''42'' \<and>
   decimal ''42'' \<le> 2 ^ 53 \<and> decimal ''7'' \<le> 2 ^ 53 \<and>
   fst (discoverScheduleId pages 4 fresh) = Some 7 \<and>
   nowhere schedule_id_field ''{"id":7 , "facility_id":4}'' \<and>
   first_at facility_field ''{"id":7 , "facility_id":4}'' 1 ''7'' \<and>
   fst (discoverScheduleId pages 5 fresh) = None\<close>
proof -
  have a: \<open>first_at schedule_id_field ''{"schedule_id": 42}'' 1 ''42''\<close>
    unfolding first_at_match [of schedule_id_regex schedule_id_field, OF schedule_id_iff]
    by (simp add: regex_defs)
  have b: \<open>nowhere schedule_id_field ''{"id":7 , "facility_id":4}''\<close>
    unfolding nowhere_search [of schedule_id_regex schedule_id_field, OF schedule_id_iff]
    by (simp add: regex_defs)
  have c: \<open>first_at facility_field ''{"id":7 , "facility_id":4}'' 1 ''7''\<close>
    unfolding first_at_match [of facility_regex facility_field, OF facility_iff]
    by (simp add: regex_defs)
  have p: \<open>booking_page pages 3 = Response (JStr ''{"schedule_id": 42}'')\<close>
    \<open>booking_page pages 4 = Response (JStr ''{"id":7 , "facility_id":4}'')\<close>
    "booking_page pages 5 = Failed"
    by (simp_all add: pages_def)
  have d: "int (decimal ''42'') = 42" "int (decimal ''7'') = 7"
    by (simp_all add: decimal_def)
  have l: "decimal ''42'' \<le> 2 ^ 53" "decimal ''7'' \<le> 2 ^ 53"
    by (simp_all add: decimal_def)
  from discoverScheduleId_scans [of pages 3 fresh "fst (discoverScheduleId pages 3 fresh)"
      "snd (discoverScheduleId pages 3 fresh)"] p(1) a d(1) l(1)
  have 1: "fst (discoverScheduleId pages 3 fresh) = Some 42" by simp
  from discoverScheduleId_scans [of pages 4 fresh "fst (discoverScheduleId pages 4 fresh)"
      "snd (discoverScheduleId pages 4 fresh)"] p(2) b c d(2) l(2)
  have 2: "fst (discoverScheduleId pages 4 fresh) = Some 7" by simp
  from discoverScheduleId_scans [of pages 5 fresh "fst (discoverScheduleId pages 5 fresh)"
      "snd (discoverScheduleId pages 5 fresh)"] p(3)
  have 3: "fst (discoverScheduleId pages 5 fresh) = None" by simp
  from 1 2 3 a b c l show ?thesis by simp
qed

subsection \<open>The times cache\<close>

text \<open>An entry that is live is not replaced: the loop sets a key only after a miss.\<close>

lemma resolve_times_cache:
  "resolveScheduleId up now k crs i sch s = (r, s1) \<Longrightarrow> times_cache s1 = times_cache s"
  by (auto simp: resolveScheduleId_def discoverScheduleId_def Let_def
      split: if_splits prod.splits option.splits http_result.splits sum.splits)

lemma fetchSchedule_keeps_live:
  assumes "fetchSchedule up now k crs d pl i sch res s = (res', s')"
    and "map_of (times_cache s) key = Some (v, e)" and "now \<le> e"
  shows "map_of (times_cache s') key = Some (v, e)"
proof -
  obtain r s1 where r: "resolveScheduleId up now k crs i sch s = (r, s1)"
    by (cases "resolveScheduleId up now k crs i sch s")
  then have tc: "times_cache s1 = times_cache s" by (rule resolve_times_cache)
  show ?thesis
  proof (cases "\<exists>n. r = Some n \<and> n \<noteq> 0 \<and> cache_get now (times_cache s1) (times_key k n d pl) = None")
    case True
    then obtain n where n: "r = Some n" "n \<noteq> 0"
      "cache_get now (times_cache s1) (times_key k n d pl) = None" by blast
    from n(3) assms(2,3) tc have "times_key k n d pl \<noteq> key"
      by (auto simp: cache_get_def)
    with assms r n tc show ?thesis
      by (auto simp: fetchSchedule_def Let_def cache_set_def
          split: http_result.splits sum.splits)
  next
    case False
    with assms r tc show ?thesis
      by (auto simp: fetchSchedule_def Let_def split: option.splits if_splits)
  qed
qed

lemma fetchSchedules_keeps_live:
  assumes "fetchSchedules up now k crs d pl i rest res s = (res', s')"
    and "map_of (times_cache s) key = Some (v, e)" and "now \<le> e"
  shows "map_of (times_cache s') key = Some (v, e)"
  using assms
proof (induction rest arbitrary: i res s)
  case Nil
  then show ?case by simp
next
  case (Cons sch rest)
  obtain r1 s1 where h: "fetchSchedule up now k crs d pl i sch res s = (r1, s1)"
    by (cases "fetchSchedule up now k crs d pl i sch res s")
  from fetchSchedule_keeps_live [OF h Cons.prems(2,3)]
  have "map_of (times_cache s1) key = Some (v, e)" .
  with Cons.IH [of "Suc i" r1 s1] Cons.prems(1,3) h show ?case by simp
qed


lemma missed_keeps: "cache_get t1 c key = None \<Longrightarrow> keeps t1 t2 c key"
  by (auto simp: cache_get_def keeps_def split: option.splits if_splits)

lemma fetchSchedule_keeps:
  assumes "fetchSchedule up t1 k crs d pl i sch res s = (res', s')"
    and "t2 \<le> t1 + 300000" and "keeps t1 t2 (times_cache s) key"
  shows "keeps t1 t2 (times_cache s') key"
proof -
  obtain r s1 where r: "resolveScheduleId up t1 k crs i sch s = (r, s1)"
    by (cases "resolveScheduleId up t1 k crs i sch s")
  then have tc: "times_cache s1 = times_cache s" by (rule resolve_times_cache)
  from assms r tc show ?thesis
    by (auto simp: fetchSchedule_def Let_def cache_set_def keeps_def
        split: option.splits if_splits http_result.splits sum.splits)
qed

lemma first_fetch:
  assumes "id' sch = Some n" "n \<noteq> 0" "answered up k crs d pl sch"
    and "fetchSchedule up t1 k crs d pl i sch res s = (res', s')"
    and "t1 \<le> t2" "t2 \<le> t1 + 300000"
    and "keeps t1 t2 (times_cache s) (times_key k n d pl)"
  shows "\<exists>v e. res' = res @ v \<and> map_of (times_cache s') (times_key k n d pl) = Some (v, e) \<and> t2 \<le> e"
proof -
  have r: "resolveScheduleId up t1 k crs i sch s = (Some n, s)"
    using assms(1,2) by (simp add: resolveScheduleId_def truthy_num_def)
  show ?thesis
  proof (cases "cache_get t1 (times_cache s) (times_key k n d pl)")
    case None
    from assms(1,3) obtain data ts where
      a: "times_endpoint up (bookingUrl crs) n d pl = Response data"
      "map_slots (slot_record k crs sch) (case data of JArr slots \<Rightarrow> slots | _ \<Rightarrow> []) = Inr ts"
      by (auto simp: answered_def split: http_result.splits sum.splits)
    with assms(2,4,6) r None show ?thesis
      by (auto simp: fetchSchedule_def Let_def cache_set_def)
  next
    case (Some v)
    then obtain e where e: "map_of (times_cache s) (times_key k n d pl) = Some (v, e)" "t1 \<le> e"
      by (auto simp: cache_get_def split: option.splits if_splits)
    with assms(7) have "t2 \<le> e" by (auto simp: keeps_def)
    with assms(2,4) r Some e show ?thesis
      by (auto simp: fetchSchedule_def)
  qed
qed

lemma second_fetch:
  assumes "id' sch = Some n" "n \<noteq> 0"
    and "map_of (times_cache s) (times_key k n d pl) = Some (v, e)" "t2 \<le> e"
  shows "fetchSchedule up t2 k crs d pl i sch res s = (res @ v, s)"
  using assms
  by (simp add: fetchSchedule_def resolveScheduleId_def truthy_num_def cache_get_def)

lemma repeat_loop:
  assumes "\<forall>sch\<in>set rest. \<exists>n. id' sch = Some n \<and> n \<noteq> 0 \<and> answered up1 k crs d pl sch \<and>
             keeps t1 t2 (times_cache s) (times_key k n d pl)"
    and "t1 \<le> t2" "t2 \<le> t1 + 300000"
    and "fetchSchedules up1 t1 k crs d pl i rest res s = (res', s1)"
  shows "\<exists>add. res' = res @ add \<and>
           (\<forall>res2. fetchSchedules up2 t2 k crs d pl i rest res2 s1 = (res2 @ add, s1))"
  using assms(1,4)
proof (induction rest arbitrary: i res s)
  case Nil
  then show ?case by simp
next
  case (Cons sch rest)
  obtain ra sa where h: "fetchSchedule up1 t1 k crs d pl i sch res s = (ra, sa)"
    by (cases "fetchSchedule up1 t1 k crs d pl i sch res s")
  with Cons.prems(2) have tl: "fetchSchedules up1 t1 k crs d pl (Suc i) rest ra sa = (res', s1)"
    by simp
  from Cons.prems(1) obtain n where n: "id' sch = Some n" "n \<noteq> 0" "answered up1 k crs d pl sch"
    "keeps t1 t2 (times_cache s) (times_key k n d pl)" by auto
  from first_fetch [OF n(1,2,3) h assms(2,3) n(4)] obtain v e where
    v: "ra = res @ v" "map_of (times_cache sa) (times_key k n d pl) = Some (v, e)" "t2 \<le> e"
    by blast
  have "\<forall>sch\<in>set rest. \<exists>n. id' sch = Some n \<and> n \<noteq> 0 \<and> answered up1 k crs d pl sch \<and>
             keeps t1 t2 (times_cache sa) (times_key k n d pl)"
    using Cons.prems(1) fetchSchedule_keeps [OF h assms(3)] by fastforce
  from Cons.IH [OF this tl] obtain add where
    add: "res' = ra @ add"
    "\<And>res2. fetchSchedules up2 t2 k crs d pl (Suc i) rest res2 s1 = (res2 @ add, s1)"
    by blast
  from v(3) assms(2) have "t1 \<le> e" by simp
  from fetchSchedules_keeps_live [OF tl v(2) this]
  have "map_of (times_cache s1) (times_key k n d pl) = Some (v, e)" .
  from second_fetch [OF n(1,2) this v(3)]
  have "\<And>res2. fetchSchedule up2 t2 k crs d pl i sch res2 s1 = (res2 @ v, s1)" .
  with add v(1) show ?case
    by (intro exI [of _ "v @ add"]) simp
qed

lemma known_fetchSchedule_registry:
  assumes "truthy_num (id' sch)" "fetchSchedule up now k crs d pl i sch res s = (res', s')"
  shows "registry s' = registry s"
proof -
  have "resolveScheduleId up now k crs i sch s = (id' sch, s)"
    using assms(1) by (simp add: resolveScheduleId_def)
  with assms(2) show ?thesis
    by (auto simp: fetchSchedule_def Let_def
        split: option.splits if_splits http_result.splits sum.splits)
qed

lemma known_fetchSchedules_registry:
  assumes "\<forall>sch\<in>set rest. truthy_num (id' sch)"
    and "fetchSchedules up now k crs d pl i rest res s = (res', s')"
  shows "registry s' = registry s"
  using assms
proof (induction rest arbitrary: i res s)
  case Nil
  then show ?case by simp
next
  case (Cons sch rest)
  obtain ra sa where h: "fetchSchedule up now k crs d pl i sch res s = (ra, sa)"
    by (cases "fetchSchedule up now k crs d pl i sch res s")
  with Cons.prems have "registry sa = registry s"
    by (auto intro: known_fetchSchedule_registry)
  with Cons.IH [of "Suc i" ra sa] Cons.prems h show ?case by simp
qed

text \<open>
  C6, amended. When the first query finds nothing in the times cache and the upstream
  answers it, for every schedule of the course (all with a known id), then an identical
  query at most 5 minutes later returns the identical records and leaves the state as it
  is: it is served from the times cache and sends nothing to the upstream, whatever the
  upstream \<open>up2\<close> would answer.
\<close>

theorem repeated_query_from_cache:
  assumes "lookup_course (registry s) k = Own crs"
    and "\<forall>sch\<in>set (schedules crs).
           truthy_num (id' sch) \<and> answered up1 k crs d pl sch \<and> missed t1 s k d pl sch"
    and "t1 \<le> t2" "t2 \<le> t1 + 300000"
    and "fetchTeeTimes up1 t1 k d pl s = (r1, s1)"
  shows "fetchTeeTimes up2 t2 k d pl s1 = (r1, s1) \<and>
         outbound (snd (fetchTeeTimes up2 t2 k d pl s1)) = outbound s1"
proof -
  obtain res' where l: "fetchSchedules up1 t1 k crs d pl 0 (schedules crs) [] s = (res', s1)"
    and r1: "r1 = Inr res'"
    using assms(1,5) by (auto simp: fetchTeeTimes_def split: prod.splits)
  have "\<forall>sch\<in>set (schedules crs). \<exists>n. id' sch = Some n \<and> n \<noteq> 0 \<and> answered up1 k crs d pl sch \<and>
             keeps t1 t2 (times_cache s) (times_key k n d pl)"
  proof
    fix sch assume "sch \<in> set (schedules crs)"
    with assms(2) have a: "truthy_num (id' sch)" "answered up1 k crs d pl sch"
      "missed t1 s k d pl sch" by auto
    from a(1) obtain n where n: "id' sch = Some n" "n \<noteq> 0"
      by (auto simp: truthy_num_def split: option.splits)
    with a(3) have "cache_get t1 (times_cache s) (times_key k n d pl) = None"
      by (simp add: missed_def)
    then have "keeps t1 t2 (times_cache s) (times_key k n d pl)" by (rule missed_keeps)
    with n a(2) show "\<exists>n. id' sch = Some n \<and> n \<noteq> 0 \<and> answered up1 k crs d pl sch \<and>
             keeps t1 t2 (times_cache s) (times_key k n d pl)" by blast
  qed
  from repeat_loop [OF this assms(3,4) l, of up2] obtain add where
    add: "res' = add" "fetchSchedules up2 t2 k crs d pl 0 (schedules crs) [] s1 = (add, s1)"
    by auto
  have "registry s1 = registry s"
    using assms(2) l by (auto intro: known_fetchSchedules_registry)
  with assms(1) add r1 show ?thesis
    by (simp add: fetchTeeTimes_def)
qed

text \<open>
  C6, as stated, fails in two ways. When the upstream fails on the first query nothing is
  cached: the identical query one second later asks the upstream again and returns what
  it answers then. And a first query served from an entry that is about to expire does
  not renew the entry: of two identical queries at 299 s and 301 s after the entry was
  made, the first is served from the cache and the second asks the upstream.
\<close>

theorem repeated_query_refetched:
  "fst (fetchTeeTimes down 0 ''a'' ''d'' (Some 2) fresh) = Inr [] \<and>
   fst (fetchTeeTimes morning 1000 ''a'' ''d'' (Some 2)
          (snd (fetchTeeTimes down 0 ''a'' ''d'' (Some 2) fresh))) =
     Inr [record_a (JStr ''08:00'')] \<and>
   outbound (snd (fetchTeeTimes morning 1000 ''a'' ''d'' (Some 2)
          (snd (fetchTeeTimes down 0 ''a'' ''d'' (Some 2) fresh)))) =
     [GetTimes ''u'' 5 ''d'' (Some 2), GetTimes ''u'' 5 ''d'' (Some 2)] \<and>
   fst (fetchTeeTimes down 299000 ''a'' ''d'' (Some 2)
          (snd (fetchTeeTimes morning 0 ''a'' ''d'' (Some 2) fresh))) =
     Inr [record_a (JStr ''08:00'')] \<and>
   fst (fetchTeeTimes down 301000 ''a'' ''d'' (Some 2)
          (snd (fetchTeeTimes down 299000 ''a'' ''d'' (Some 2)
             (snd (fetchTeeTimes morning 0 ''a'' ''d'' (Some 2) fresh))))) =
     Inr []"
  by (simp add: server_defs example_defs)

theorem repeated_query_from_cache_witness:
  "fst (fetchTeeTimes morning 0 ''a'' ''d'' (Some 2) fresh) = Inr [record_a (JStr ''08:00'')] \<and>
   fetchTeeTimes down 300000 ''a'' ''d'' (Some 2)
       (snd (fetchTeeTimes morning 0 ''a'' ''d'' (Some 2) fresh)) =
     fetchTeeTimes morning 0 ''a'' ''d'' (Some 2) fresh \<and>
   outbound (snd (fetchTeeTimes down 300000 ''a'' ''d'' (Some 2)
       (snd (fetchTeeTimes morning 0 ''a'' ''d'' (Some 2) fresh)))) =
     [GetTimes ''u'' 5 ''d'' (Some 2)]"
proof -
  let ?crs = "\<lparr>name = ''A'', courseId = 1,
      schedules = [\<lparr>id' = Some 5, label = ''L''\<rparr>], bookingUrl = ''u''\<rparr>"
  have a: "lookup_course (registry fresh) ''a'' = Own ?crs"
    by (simp add: lookup_course_def example_defs)
  have b: "\<forall>sch\<in>set (schedules ?crs).
      truthy_num (id' sch) \<and> answered morning ''a'' ?crs ''d'' (Some 2) sch \<and>
      missed 0 fresh ''a'' ''d'' (Some 2) sch"
    by (simp add: truthy_num_def answered_def missed_def cache_get_def slot_record_def
        example_defs)
  have c: "(0::nat) \<le> 300000" "(300000::nat) \<le> 0 + 300000" by simp_all
  have d: "fetchTeeTimes morning 0 ''a'' ''d'' (Some 2) fresh =
      (fst (fetchTeeTimes morning 0 ''a'' ''d'' (Some 2) fresh),
       snd (fetchTeeTimes morning 0 ''a'' ''d'' (Some 2) fresh))" by simp
  have e: "fst (fetchTeeTimes morning 0 ''a'' ''d'' (Some 2) fresh) =
      Inr [record_a (JStr ''08:00'')]"
    "outbound (snd (fetchTeeTimes morning 0 ''a'' ''d'' (Some 2) fresh)) =
      [GetTimes ''u'' 5 ''d'' (Some 2)]"
    by (simp_all add: server_defs example_defs)
  from repeated_query_from_cache [OF a b c d, of down] e show ?thesis
    by (simp add: prod_eq_iff)
qed

subsection \<open>The schedule-id cache\<close>

lemma discoverScheduleId_eq:
  "discoverScheduleId up cid s =
     (discovered up cid, s\<lparr>outbound := outbound s @ [GetBookingPage cid]\<rparr>)"
  by (simp add: discoverScheduleId_def discovered_def Let_def
      split: http_result.splits sum.splits)

text \<open>The three ways out of the first half of the loop body.\<close>

lemma resolveScheduleId_cases:
  assumes "resolveScheduleId up t k crs i sch s = (r, s1)"
  obtains
    (known) "s1 = s"
  | (failed) "\<not> truthy_num (cache_get t (id_cache s) (schedule_key (courseId crs)))"
      "\<not> truthy_num (discovered up (courseId crs))" "\<not> truthy_num (id' sch)"
      "s1 = s\<lparr>outbound := outbound s @ [GetBookingPage (courseId crs)]\<rparr>"
  | (found) n where
      "\<not> truthy_num (cache_get t (id_cache s) (schedule_key (courseId crs)))"
      "discovered up (courseId crs) = Some n" "n \<noteq> 0" "\<not> truthy_num (id' sch)"
      "s1 = s\<lparr>outbound := outbound s @ [GetBookingPage (courseId crs)],
               id_cache := cache_set t 86400 (schedule_key (courseId crs)) n (id_cache s),
               registry := set_schedule_id k i n (registry s)\<rparr>"
proof (cases "truthy_num (id' sch) \<or>
    truthy_num (cache_get t (id_cache s) (schedule_key (courseId crs)))")
  case True
  with assms have "s1 = s"
    by (auto simp: resolveScheduleId_def split: if_splits)
  then show ?thesis by (rule known)
next
  case False
  then have c: "\<not> truthy_num (cache_get t (id_cache s) (schedule_key (courseId crs)))"
    and i: "\<not> truthy_num (id' sch)" by simp_all
  show ?thesis
  proof (cases "discovered up (courseId crs)")
    case None
    with assms c i have "s1 = s\<lparr>outbound := outbound s @ [GetBookingPage (courseId crs)]\<rparr>"
      by (simp add: resolveScheduleId_def discoverScheduleId_eq)
    with c i None show ?thesis by (intro failed) (simp_all add: truthy_num_def)
  next
    case (Some n)
    show ?thesis
    proof (cases "n = 0")
      case True
      with assms c i Some
      have "s1 = s\<lparr>outbound := outbound s @ [GetBookingPage (courseId crs)]\<rparr>"
        by (simp add: resolveScheduleId_def discoverScheduleId_eq)
      with c i Some True show ?thesis by (intro failed) (simp_all add: truthy_num_def)
    next
      case False
      with assms c i Some
      have "s1 = s\<lparr>outbound := outbound s @ [GetBookingPage (courseId crs)],
               id_cache := cache_set t 86400 (schedule_key (courseId crs)) n (id_cache s),
               registry := set_schedule_id k i n (registry s)\<rparr>"
        by (simp add: resolveScheduleId_def discoverScheduleId_eq)
      with c i Some False show ?thesis by (intro found)
    qed
  qed
qed

lemma fetchSchedule_rest:
  assumes "fetchSchedule up t k crs d pl i sch res s = (res', s')"
    and "resolveScheduleId up t k crs i sch s = (r, s1)"
  shows "id_cache s' = id_cache s1"
    and "pages_fetched cid s' = pages_fetched cid s1"
    and "registry s' = registry s1"
  using assms
  by (auto simp: fetchSchedule_def Let_def pages_fetched_def
      split: option.splits if_splits http_result.splits sum.splits)












subsection \<open>The registry is filled in one way\<close>

lemma sched_step_refl: "sched_step up cid a a"
  by (simp add: sched_step_def)

lemma sched_step_trans:
  "sched_step up cid a b \<Longrightarrow> sched_step up cid b c \<Longrightarrow> sched_step up cid a c"
  by (auto simp: sched_step_def)

lemma course_step_refl: "course_step up a a"
  by (simp add: course_step_def list_all2_refl sched_step_refl)

lemma course_step_trans:
  assumes "course_step up a b" "course_step up b c"
  shows "course_step up a c"
proof -
  from assms have "list_all2 (sched_step up (courseId a)) (schedules a) (schedules b)"
    "list_all2 (sched_step up (courseId a)) (schedules b) (schedules c)"
    by (simp_all add: course_step_def)
  then have "list_all2 (sched_step up (courseId a)) (schedules a) (schedules c)"
    by (rule list_all2_trans [rotated]) (rule sched_step_trans)
  with assms show ?thesis by (simp add: course_step_def)
qed

lemma registry_step_refl: "registry_step up reg reg"
  by (simp add: registry_step_def list_all2_refl course_step_refl)

lemma registry_step_trans:
  assumes "registry_step up a b" "registry_step up b c"
  shows "registry_step up a c"
  using assms unfolding registry_step_def
  by (rule list_all2_trans [rotated]) (auto intro: course_step_trans)

lemma set_schedule_id_step:
  assumes "map_of reg k = Some c" "i < length (schedules c)"
    "\<not> truthy_num (id' (schedules c ! i))" "n \<noteq> 0" "discovered up (courseId c) = Some n"
  shows "registry_step up reg (set_schedule_id k i n reg)"
  using assms(1)
proof (induction reg)
  case Nil
  then show ?case by simp
next
  case (Cons p reg)
  show ?case
  proof (cases "fst p = k")
    case True
    with Cons.prems have c: "snd p = c" by (cases p) auto
    have "list_all2 (sched_step up (courseId c)) (schedules c)
        ((schedules c)[i := (schedules c ! i)\<lparr>id' := Some n\<rparr>])"
      using assms(2,3,4,5)
      by (auto simp: list_all2_conv_all_nth nth_list_update sched_step_def truthy_num_def)
    then have "course_step up c (c\<lparr>schedules := (schedules c)[i := (schedules c ! i)\<lparr>id' := Some n\<rparr>]\<rparr>)"
      by (simp add: course_step_def)
    with True c show ?thesis
      using registry_step_refl [of up reg]
      by (simp add: registry_step_def set_schedule_id_def)
  next
    case False
    with Cons.prems have "map_of reg k = Some c" by (cases p) (auto split: if_splits)
    from Cons.IH [OF this] False show ?thesis
      by (simp add: registry_step_def set_schedule_id_def course_step_refl)
  qed
qed

lemma map_of_set_schedule_id:
  "map_of reg k = Some c \<Longrightarrow>
     map_of (set_schedule_id k i n reg) k =
       Some (c\<lparr>schedules := (schedules c)[i := (schedules c ! i)\<lparr>id' := Some n\<rparr>]\<rparr>)"
  by (simp add: set_schedule_id_def map_of_map_entry)


lemma drop_eq_Cons:
  assumes "drop i xs = y # ys"
  shows "i < length xs" "y = xs ! i" "ys = drop (Suc i) xs"
proof -
  from assms show i: "i < length xs" by (cases "i < length xs") auto
  from Cons_nth_drop_Suc [OF i] assms show "y = xs ! i" "ys = drop (Suc i) xs" by simp_all
qed

lemma fetchSchedule_registry_step:
  assumes "fetchSchedule up t k crs d pl i sch res s = (res', s')"
    and "i < length (schedules crs)" "sch = schedules crs ! i"
    and "live_course k crs i (registry s)"
  shows "registry_step up (registry s) (registry s') \<and> live_course k crs (Suc i) (registry s')"
proof -
  obtain r s1 where r: "resolveScheduleId up t k crs i sch s = (r, s1)"
    by (cases "resolveScheduleId up t k crs i sch s")
  from assms(4) obtain c where c: "map_of (registry s) k = Some c" "courseId c = courseId crs"
    "length (schedules c) = length (schedules crs)"
    "\<forall>j. i \<le> j \<and> j < length (schedules crs) \<longrightarrow> schedules c ! j = schedules crs ! j"
    by (auto simp: live_course_def)
  have weaker: "live_course k crs (Suc i) (registry s)"
    using c by (auto simp: live_course_def)
  have "registry_step up (registry s) (registry s1) \<and> live_course k crs (Suc i) (registry s1)"
    using r
  proof (cases rule: resolveScheduleId_cases)
    case known
    with weaker show ?thesis by (simp add: registry_step_refl)
  next
    case failed
    with weaker show ?thesis by (simp add: registry_step_refl)
  next
    case (found n)
    from c(4) assms(2,3) have "schedules c ! i = sch" by simp
    with found(4) have f: "\<not> truthy_num (id' (schedules c ! i))" by simp
    from assms(2) c(3) have i: "i < length (schedules c)" by simp
    from found(2) c(2) have d: "discovered up (courseId c) = Some n" by simp
    have 1: "registry_step up (registry s) (set_schedule_id k i n (registry s))"
      using c(1) i f found(3) d by (rule set_schedule_id_step)
    have 2: "live_course k crs (Suc i) (set_schedule_id k i n (registry s))"
      unfolding live_course_def map_of_set_schedule_id [OF c(1)]
      using c(2,3,4) by simp
    from 1 2 found(5) show ?thesis by simp
  qed
  with fetchSchedule_rest(3) [OF assms(1) r] show ?thesis by simp
qed

lemma fetchSchedules_registry_step:
  assumes "fetchSchedules up t k crs d pl i rest res s = (res', s')"
    and "rest = drop i (schedules crs)" "live_course k crs i (registry s)"
  shows "registry_step up (registry s) (registry s')"
  using assms
proof (induction rest arbitrary: i res s)
  case Nil
  then show ?case by (simp add: registry_step_refl)
next
  case (Cons sch rest)
  from drop_eq_Cons [OF Cons.prems(2) [symmetric]]
  have i: "i < length (schedules crs)" "sch = schedules crs ! i"
    "rest = drop (Suc i) (schedules crs)" .
  obtain ra sa where h: "fetchSchedule up t k crs d pl i sch res s = (ra, sa)"
    by (cases "fetchSchedule up t k crs d pl i sch res s")
  from fetchSchedule_registry_step [OF h i(1,2) Cons.prems(3)]
  have a: "registry_step up (registry s) (registry sa)"
    "live_course k crs (Suc i) (registry sa)" by simp_all
  from Cons.prems(1) h have "fetchSchedules up t k crs d pl (Suc i) rest ra sa = (res', s')"
    by simp
  from Cons.IH [OF this i(3) a(2)] a(1) show ?case
    by (rule registry_step_trans [rotated])
qed

lemma fetchTeeTimes_registry_step:
  "registry_step up (registry s) (registry (snd (fetchTeeTimes up t k d pl s)))"
proof (cases "lookup_course (registry s) k")
  case (Own crs)
  then have m: "map_of (registry s) k = Some crs"
    by (auto simp: lookup_course_def split: option.splits if_splits)
  obtain res' s' where l: "fetchSchedules up t k crs d pl 0 (schedules crs) [] s = (res', s')"
    by (cases "fetchSchedules up t k crs d pl 0 (schedules crs) [] s")
  have "live_course k crs 0 (registry s)"
    using m by (simp add: live_course_def)
  from fetchSchedules_registry_step [OF l _ this] Own l show ?thesis
    by (simp add: fetchTeeTimes_def)
next
  case Inherited
  then show ?thesis by (simp add: fetchTeeTimes_def registry_step_refl)
next
  case Missing
  then show ?thesis by (simp add: fetchTeeTimes_def registry_step_refl)
qed

lemma fetchAll_Cons_snd:
  "snd (fetchAll up t d pl (k # ks) s) =
     snd (fetchAll up t d pl ks (snd (fetchTeeTimes up t (trim k) d pl s)))"
  by (cases "fetchTeeTimes up t (trim k) d pl s";
      cases "fetchAll up t d pl ks (snd (fetchTeeTimes up t (trim k) d pl s))") simp

lemma fetchAll_registry_step:
  "registry_step up (registry s) (registry (snd (fetchAll up t d pl ks s)))"
proof (induction ks arbitrary: s)
  case Nil
  then show ?case by (simp add: registry_step_refl)
next
  case (Cons k ks)
  have "registry_step up (registry s) (registry (snd (fetchTeeTimes up t (trim k) d pl s)))"
    by (rule fetchTeeTimes_registry_step)
  from this Cons [of "snd (fetchTeeTimes up t (trim k) d pl s)"]
  have "registry_step up (registry s)
      (registry (snd (fetchAll up t d pl ks (snd (fetchTeeTimes up t (trim k) d pl s)))))"
    by (rule registry_step_trans)
  then show ?case by (simp only: fetchAll_Cons_snd)
qed

lemma get_teetimes_state:
  "snd (get_teetimes pf up t q s) = s \<or>
   (\<exists>d. snd (get_teetimes pf up t q s) =
      snd (fetchAll up t d (parsePlayers (q_players q)) (courseKeys s (q_courses q)) s))"
proof (cases "q_date q")
  case None
  then show ?thesis by (simp add: get_teetimes_def)
next
  case (Some d)
  show ?thesis
  proof (cases "d = []")
    case True
    with Some show ?thesis by (simp add: get_teetimes_def)
  next
    case False
    with Some have "snd (get_teetimes pf up t q s) =
      snd (fetchAll up t d (parsePlayers (q_players q)) (courseKeys s (q_courses q)) s)"
      by (simp add: get_teetimes_def split: prod.splits sum.splits)
    then show ?thesis by blast
  qed
qed

text \<open>
  C9. \<open>fetchTeeTimes\<close>, and with it a whole request, changes the registry in one way
  only: the id of a schedule goes from unknown to the value discovered for its facility.
  A known id is never replaced and never removed, and nothing else in the registry
  changes. Running the loop again for a course whose schedules all have an id leaves
  the registry as it is. (Calls run one at a time, as everywhere in this theory; in
  \<open>COURSES\<close> every id is known and the assignment is never reached.)
\<close>

theorem schedule_id_one_way:
  "registry_step up (registry s) (registry (snd (fetchTeeTimes up t k d pl s))) \<and>
   registry_step up (registry s) (registry (snd (get_teetimes pf up t q s))) \<and>
   (\<forall>crs. lookup_course (registry s) k = Own crs \<and>
      list_all (\<lambda>sch. truthy_num (id' sch)) (schedules crs) \<longrightarrow>
      registry (snd (fetchTeeTimes up t k d pl s)) = registry s)"
proof (intro conjI allI impI)
  show "registry_step up (registry s) (registry (snd (fetchTeeTimes up t k d pl s)))"
    by (rule fetchTeeTimes_registry_step)
  show "registry_step up (registry s) (registry (snd (get_teetimes pf up t q s)))"
    using get_teetimes_state [of pf up t q s] fetchAll_registry_step [of up s t]
    by (auto simp: registry_step_refl)
next
  fix crs
  assume a: "lookup_course (registry s) k = Own crs \<and>
      list_all (\<lambda>sch. truthy_num (id' sch)) (schedules crs)"
  obtain res' s' where l: "fetchSchedules up t k crs d pl 0 (schedules crs) [] s = (res', s')"
    by (cases "fetchSchedules up t k crs d pl 0 (schedules crs) [] s")
  from a have "\<forall>sch\<in>set (schedules crs). truthy_num (id' sch)" by (simp add: list_all_iff)
  from known_fetchSchedules_registry [OF this l] a l
  show "registry (snd (fetchTeeTimes up t k d pl s)) = registry s"
    by (simp add: fetchTeeTimes_def)
qed


theorem schedule_id_one_way_witness:
  "registry (snd (fetchTeeTimes pages 0 ''c'' ''d'' (Some 2) fresh)) =
     set_schedule_id ''c'' 0 42 three_courses \<and>
   registry_step pages three_courses (set_schedule_id ''c'' 0 42 three_courses) \<and>
   registry (snd (fetchTeeTimes down 5 ''c'' ''d'' (Some 2)
       (snd (fetchTeeTimes pages 0 ''c'' ''d'' (Some 2) fresh)))) =
     set_schedule_id ''c'' 0 42 three_courses"
proof -
  let ?s1 = "snd (fetchTeeTimes pages 0 ''c'' ''d'' (Some 2) fresh)"
  let ?c = "\<lparr>name = ''C'', courseId = 3,
      schedules = [\<lparr>id' = Some 42, label = ''N''\<rparr>], bookingUrl = ''w''\<rparr>"
  have e: "registry ?s1 = set_schedule_id ''c'' 0 42 three_courses"
    by (simp add: server_defs example_defs scan_page_def regex_defs)
  have f: "registry fresh = three_courses" by (simp add: fresh_def)
  have l: "lookup_course (registry ?s1) ''c'' = Own ?c \<and>
      list_all (\<lambda>sch. truthy_num (id' sch)) (schedules ?c)"
    unfolding e by (simp add: lookup_course_def set_schedule_id_def three_courses_def truthy_num_def)
  from schedule_id_one_way [of pages fresh 0 "''c''" "''d''" "Some 2" reference "ask ''c''"] e f
  have 1: "registry_step pages three_courses (set_schedule_id ''c'' 0 42 three_courses)"
    by simp
  from schedule_id_one_way [of down ?s1 5 "''c''" "''d''" "Some 2" reference "ask ''c''"] l e
  have 2: "registry (snd (fetchTeeTimes down 5 ''c'' ''d'' (Some 2) ?s1)) =
      set_schedule_id ''c'' 0 42 three_courses"
    by simp
  from e 1 2 show ?thesis by simp
qed

subsection \<open>Records belong to the registry\<close>

lemma same_courses_refl: "same_courses reg reg"
  by (simp add: same_courses_def list_all2_refl)

lemma same_courses_trans:
  assumes "same_courses a b" "same_courses b c"
  shows "same_courses a c"
  using assms unfolding same_courses_def
  by (rule list_all2_trans [rotated]) auto

lemma same_courses_sym: "same_courses a b \<Longrightarrow> same_courses b a"
  by (auto simp: same_courses_def list_all2_conv_all_nth)

lemma sched_steps_labels:
  "list_all2 (sched_step up cid) xs ys \<Longrightarrow> map label ys = map label xs"
  by (induction rule: list_all2_induct) (auto simp: sched_step_def)

lemma registry_step_same_courses:
  "registry_step up reg reg' \<Longrightarrow> same_courses reg reg'"
  unfolding registry_step_def same_courses_def
  by (erule list_all2_mono) (auto simp: course_step_def dest: sched_steps_labels)

lemma same_courses_map_of:
  assumes "same_courses reg reg'" "map_of reg k = Some c"
  shows "\<exists>c'. map_of reg' k = Some c' \<and> name c' = name c \<and> bookingUrl c' = bookingUrl c \<and>
          map label (schedules c') = map label (schedules c)"
  using assms unfolding same_courses_def
proof (induction rule: list_all2_induct)
  case Nil
  then show ?case by simp
next
  case (Cons x xs y ys)
  then show ?case
    by (cases x; cases y) (auto split: if_splits)
qed

lemma record_ok_same_courses:
  assumes "same_courses reg reg'" "record_ok reg r"
  shows "record_ok reg' r"
proof -
  from assms(2) obtain c where c: "map_of reg (courseKey r) = Some c"
    "course r = name c" "bookingUrl' r = bookingUrl c"
    "scheduleLabel r \<in> set (map label (schedules c))"
    by (auto simp: record_ok_def split: option.splits)
  from same_courses_map_of [OF assms(1) c(1)] obtain c' where
    "map_of reg' (courseKey r) = Some c'" "name c' = name c" "bookingUrl c' = bookingUrl c"
    "map label (schedules c') = map label (schedules c)" by blast
  with c show ?thesis by (simp add: record_ok_def)
qed

lemma slot_records:
  "map_slots (slot_record k crs sch) slots = Inr ts \<Longrightarrow>
     \<forall>r\<in>set ts. courseKey r = k \<and> course r = name crs \<and> scheduleLabel r = label sch \<and>
        bookingUrl' r = bookingUrl crs"
proof (induction slots arbitrary: ts)
  case Nil
  then show ?case by simp
next
  case (Cons x xs)
  then show ?case
    by (auto simp: slot_record_def split: sum.splits if_splits)
qed

lemma fetchSchedule_output:
  assumes "fetchSchedule up t k crs d pl i sch res s = (res', s')"
  shows "(res' = res \<and> times_cache s' = times_cache s) \<or>
     (\<exists>key v e. res' = res @ v \<and> times_cache s' = times_cache s \<and>
        map_of (times_cache s) key = Some (v, e)) \<or>
     (\<exists>key ts e slots. res' = res @ ts \<and> times_cache s' = (key, ts, e) # times_cache s \<and>
        map_slots (slot_record k crs sch) slots = Inr ts)"
proof -
  obtain r s1 where r: "resolveScheduleId up t k crs i sch s = (r, s1)"
    by (cases "resolveScheduleId up t k crs i sch s")
  then have tc: "times_cache s1 = times_cache s" by (rule resolve_times_cache)
  show ?thesis
  proof (cases "\<exists>n. r = Some n \<and> n \<noteq> 0")
    case False
    with assms r tc show ?thesis
      by (auto simp: fetchSchedule_def split: option.splits)
  next
    case True
    then obtain n where n: "r = Some n" "n \<noteq> 0" by blast
    show ?thesis
    proof (cases "cache_get t (times_cache s1) (times_key k n d pl)")
      case (Some v)
      then obtain e where "map_of (times_cache s) (times_key k n d pl) = Some (v, e)"
        unfolding tc by (auto simp: cache_get_def split: option.splits if_splits)
      with assms r n Some tc show ?thesis
        by (auto simp: fetchSchedule_def)
    next
      case None
      with assms r n tc show ?thesis
        by (auto simp: fetchSchedule_def Let_def cache_set_def
            split: http_result.splits sum.splits)
    qed
  qed
qed


lemma cache_ok_same_courses:
  assumes "cache_ok s" "same_courses (registry s) reg'" "times_cache s' = times_cache s"
    "registry s' = reg'"
  shows "cache_ok s'"
  using assms
  by (auto simp: cache_ok_def list_all_iff intro: record_ok_same_courses)

lemma fetchSchedule_records:
  assumes h: "fetchSchedule up t k crs d pl i sch res s = (res', s')"
    and i: "i < length (schedules crs)" "sch = schedules crs ! i"
    and live: "live_course k crs i (registry s)"
    and reg0: "map_of reg0 k = Some crs" "same_courses reg0 (registry s)"
    and ok: "cache_ok s" "list_all (record_ok (registry s)) res"
  shows "cache_ok s' \<and> list_all (record_ok (registry s')) res' \<and>
         same_courses reg0 (registry s') \<and> live_course k crs (Suc i) (registry s')"
proof -
  from fetchSchedule_registry_step [OF h i live]
  have st: "registry_step up (registry s) (registry s')"
    and live': "live_course k crs (Suc i) (registry s')" by simp_all
  from st have sc: "same_courses (registry s) (registry s')"
    by (rule registry_step_same_courses)
  with reg0(2) have sc0: "same_courses reg0 (registry s')"
    by (rule same_courses_trans)
  have old: "record_ok (registry s') r" if "record_ok (registry s) r" for r
    using sc that by (rule record_ok_same_courses)
  from ok(2) have res: "list_all (record_ok (registry s')) res"
    by (auto simp: list_all_iff intro: old)
  from ok(1) have entries: "\<forall>entry\<in>set (times_cache s).
      list_all (record_ok (registry s')) (fst (snd entry))"
    by (auto simp: cache_ok_def list_all_iff intro: old)
  from same_courses_map_of [OF sc0 reg0(1)] obtain c' where c':
    "map_of (registry s') k = Some c'" "name c' = name crs" "bookingUrl c' = bookingUrl crs"
    "map label (schedules c') = map label (schedules crs)" by blast
  have new: "list_all (record_ok (registry s')) ts"
    if "map_slots (slot_record k crs sch) slots = Inr ts" for slots ts
  proof -
    from i have "label sch \<in> set (map label (schedules crs))" by simp
    with slot_records [OF that] c' show ?thesis
      by (auto simp: list_all_iff record_ok_def)
  qed
  from fetchSchedule_output [OF h]
  have "cache_ok s' \<and> list_all (record_ok (registry s')) res'"
  proof (elim disjE exE conjE)
    assume "res' = res" "times_cache s' = times_cache s"
    with res entries show ?thesis by (simp add: cache_ok_def list_all_iff)
  next
    fix key v e
    assume a: "res' = res @ v" "times_cache s' = times_cache s"
      "map_of (times_cache s) key = Some (v, e)"
    from a(3) have "(key, v, e) \<in> set (times_cache s)" by (rule map_of_SomeD)
    with entries have "list_all (record_ok (registry s')) v" by fastforce
    with a res entries show ?thesis by (auto simp: cache_ok_def list_all_iff)
  next
    fix key ts e slots
    assume a: "res' = res @ ts" "times_cache s' = (key, ts, e) # times_cache s"
      "map_slots (slot_record k crs sch) slots = Inr ts"
    from new [OF a(3)] a res entries show ?thesis
      by (auto simp: cache_ok_def list_all_iff)
  qed
  with sc0 live' show ?thesis by simp
qed

lemma fetchSchedules_records:
  assumes "fetchSchedules up t k crs d pl i rest res s = (res', s')"
    and "rest = drop i (schedules crs)" "live_course k crs i (registry s)"
    and "map_of reg0 k = Some crs" "same_courses reg0 (registry s)"
    and "cache_ok s" "list_all (record_ok (registry s)) res"
  shows "cache_ok s' \<and> list_all (record_ok (registry s')) res' \<and>
         same_courses reg0 (registry s')"
  using assms(1,2,3,5,6,7)
proof (induction rest arbitrary: i res s)
  case Nil
  then show ?case by simp
next
  case (Cons sch rest)
  from drop_eq_Cons [OF Cons.prems(2) [symmetric]]
  have i: "i < length (schedules crs)" "sch = schedules crs ! i"
    "rest = drop (Suc i) (schedules crs)" .
  obtain ra sa where h: "fetchSchedule up t k crs d pl i sch res s = (ra, sa)"
    by (cases "fetchSchedule up t k crs d pl i sch res s")
  from fetchSchedule_records [OF h i(1,2) Cons.prems(3) assms(4) Cons.prems(4,5,6)]
  have a: "cache_ok sa" "list_all (record_ok (registry sa)) ra"
    "same_courses reg0 (registry sa)" "live_course k crs (Suc i) (registry sa)" by simp_all
  from Cons.prems(1) h have "fetchSchedules up t k crs d pl (Suc i) rest ra sa = (res', s')"
    by simp
  from Cons.IH [OF this i(3) a(4) a(3) a(1) a(2)] show ?case .
qed

lemma fetchTeeTimes_records:
  assumes "cache_ok s" "fetchTeeTimes up t k d pl s = (r, s')"
  shows "cache_ok s' \<and> same_courses (registry s) (registry s') \<and>
         (\<forall>res. r = Inr res \<longrightarrow> list_all (record_ok (registry s')) res)"
proof (cases "lookup_course (registry s) k")
  case (Own crs)
  then have m: "map_of (registry s) k = Some crs"
    by (auto simp: lookup_course_def split: option.splits if_splits)
  obtain res' sa where l: "fetchSchedules up t k crs d pl 0 (schedules crs) [] s = (res', sa)"
    by (cases "fetchSchedules up t k crs d pl 0 (schedules crs) [] s")
  have live: "live_course k crs 0 (registry s)"
    using m by (simp add: live_course_def)
  from fetchSchedules_records [OF l _ live m same_courses_refl assms(1)]
  have "cache_ok sa \<and> list_all (record_ok (registry sa)) res' \<and>
      same_courses (registry s) (registry sa)" by simp
  with Own l assms(2) show ?thesis
    by (auto simp: fetchTeeTimes_def)
next
  case Inherited
  with assms show ?thesis by (auto simp: fetchTeeTimes_def same_courses_refl)
next
  case Missing
  with assms show ?thesis by (auto simp: fetchTeeTimes_def same_courses_refl)
qed

lemma fetchAll_records:
  assumes "cache_ok s" "fetchAll up t d pl ks s = (results, s')"
  shows "cache_ok s' \<and> same_courses (registry s) (registry s') \<and>
         (\<forall>res. Inr res \<in> set results \<longrightarrow> list_all (record_ok (registry s')) res)"
  using assms
proof (induction ks arbitrary: s results s')
  case Nil
  then show ?case by (simp add: same_courses_refl)
next
  case (Cons k ks)
  obtain r s1 where f: "fetchTeeTimes up t (trim k) d pl s = (r, s1)"
    by (cases "fetchTeeTimes up t (trim k) d pl s")
  obtain rs s2 where g: "fetchAll up t d pl ks s1 = (rs, s2)"
    by (cases "fetchAll up t d pl ks s1")
  from Cons.prems(2) f g have eq: "results = r # rs" "s' = s2" by simp_all
  from fetchTeeTimes_records [OF Cons.prems(1) f]
  have a: "cache_ok s1" "same_courses (registry s) (registry s1)"
    "\<forall>res. r = Inr res \<longrightarrow> list_all (record_ok (registry s1)) res" by simp_all
  from Cons.IH [OF a(1) g]
  have b: "cache_ok s2" "same_courses (registry s1) (registry s2)"
    "\<forall>res. Inr res \<in> set rs \<longrightarrow> list_all (record_ok (registry s2)) res" by simp_all
  from a(3) b(2) have "\<forall>res. r = Inr res \<longrightarrow> list_all (record_ok (registry s2)) res"
    by (auto simp: list_all_iff intro: record_ok_same_courses)
  with a(2) b eq show ?case
    by (auto intro: same_courses_trans)
qed

lemma promise_all_set:
  "promise_all results = Inr rs \<Longrightarrow> \<forall>res\<in>set rs. Inr res \<in> set results"
proof (induction results arbitrary: rs rule: promise_all.induct)
  case 1
  then show ?case by simp
next
  case (2 err rs')
  then show ?case by simp
next
  case (3 x rs')
  then show ?case by (auto split: sum.splits)
qed

lemma get_teetimes_records:
  assumes "cache_ok s"
  shows "cache_ok (snd (get_teetimes pf up t q s)) \<and>
         same_courses (registry s) (registry (snd (get_teetimes pf up t q s))) \<and>
         (rearranges (arraySort pf) \<longrightarrow>
          (\<forall>b. fst (get_teetimes pf up t q s) = Ok200 b \<longrightarrow>
             list_all (record_ok (registry (snd (get_teetimes pf up t q s)))) (teetimes b)))"
proof (cases "\<exists>d. q_date q = Some d \<and> d \<noteq> []")
  case False
  then have "get_teetimes pf up t q s = (BadRequest400 ''date parameter required (MM-DD-YYYY)'', s)"
    by (auto simp: get_teetimes_def split: option.splits)
  with assms show ?thesis by (simp add: same_courses_refl)
next
  case True
  then obtain d where d: "q_date q = Some d" "d \<noteq> []" by blast
  obtain results s' where
    f: "fetchAll up t d (parsePlayers (q_players q)) (courseKeys s (q_courses q)) s = (results, s')"
    by (cases "fetchAll up t d (parsePlayers (q_players q)) (courseKeys s (q_courses q)) s")
  from fetchAll_records [OF assms f]
  have a: "cache_ok s'" "same_courses (registry s) (registry s')"
    "\<forall>res. Inr res \<in> set results \<longrightarrow> list_all (record_ok (registry s')) res" by simp_all
  have st: "snd (get_teetimes pf up t q s) = s'"
    using d f by (simp add: get_teetimes_def split: sum.splits)
  have "list_all (record_ok (registry s')) (teetimes b)"
    if p: "rearranges (arraySort pf)" and "fst (get_teetimes pf up t q s) = Ok200 b" for b
  proof -
    from that d f obtain rs where rs: "promise_all results = Inr rs"
      and srt: "arraySort pf (compareTimes pf) (concat rs) = Inr (teetimes b)"
      by (auto simp: get_teetimes_def split: sum.splits)
    from promise_all_set [OF rs] a(3)
    have "\<forall>r\<in>set (concat rs). record_ok (registry s') r"
      by (auto simp: list_all_iff)
    moreover from p srt have "mset (teetimes b) = mset (concat rs)"
      unfolding rearranges_def by blast
    then have "set (teetimes b) = set (concat rs)"
      by (rule mset_eq_setD)
    ultimately show ?thesis by (simp add: list_all_iff)
  qed
  with a st show ?thesis by simp
qed

lemma reachable_cache_ok: "reachable reg0 s \<Longrightarrow> cache_ok s \<and> same_courses reg0 (registry s)"
proof (induction rule: reachable.induct)
  case start
  then show ?case by (simp add: cache_ok_def same_courses_refl)
next
  case (request s pf up t q)
  with get_teetimes_records [of s pf up t q] show ?case
    by (auto intro: same_courses_trans)
qed

text \<open>
  C8. In every state the server can reach, every record in the \<open>teetimes\<close> of a 200
  answer, fetched or taken from the cache, carries a course key that is a key of the
  registry, and the course name, the booking link and the schedule label of that key's
  configuration, in the registry as it is now and as it was at the start. Of the
  engine's sort this takes only that it rearranges the records.
\<close>

theorem records_belong_to_registry:
  assumes "reachable reg0 s" "rearranges (arraySort pf)"
    and "get_teetimes pf up t q s = (Ok200 b, s')"
  shows "list_all (record_ok (registry s')) (teetimes b) \<and>
         list_all (record_ok reg0) (teetimes b)"
proof -
  from reachable_cache_ok [OF assms(1)] have c: "cache_ok s" "same_courses reg0 (registry s)"
    by simp_all
  from get_teetimes_records [OF c(1), of pf up t q] assms(2,3)
  have 1: "list_all (record_ok (registry s')) (teetimes b)"
    and sc: "same_courses (registry s) (registry s')" by simp_all
  from c(2) sc have "same_courses reg0 (registry s')" by (rule same_courses_trans)
  then have "same_courses (registry s') reg0" by (rule same_courses_sym)
  with 1 have "list_all (record_ok reg0) (teetimes b)"
    by (auto simp: list_all_iff intro: record_ok_same_courses)
  with 1 show ?thesis by simp
qed


theorem records_belong_to_registry_witness:
  "reachable three_courses (snd (get_teetimes reference morning 0 (ask ''a,b'') fresh)) \<and>
   rearranges (arraySort reference) \<and>
   fst (get_teetimes reference down 1000 (ask ''a,b'') (snd (get_teetimes reference morning 0 (ask ''a,b'') fresh))) =
     Ok200 \<lparr>date = ''d'', players' = Some 2, count' = 2,
            teetimes = [record_b (JStr ''07:30''), record_a (JStr ''08:00'')]\<rparr> \<and>
   list_all (record_ok three_courses) [record_b (JStr ''07:30''), record_a (JStr ''08:00'')]"
proof -
  let ?s1 = "snd (get_teetimes reference morning 0 (ask ''a,b'') fresh)"
  let ?b = "\<lparr>date = ''d'', players' = Some 2, count' = 2,
            teetimes = [record_b (JStr ''07:30''), record_a (JStr ''08:00'')]\<rparr>"
  have "reachable three_courses fresh"
    using reachable.start [of three_courses] by (simp add: fresh_def)
  then have r: "reachable three_courses ?s1" by (rule reachable.request)
  have p: "rearranges (arraySort reference)"
    by (simp add: reference_def rearranges_insertion_sort)
  have e: "fst (get_teetimes reference down 1000 (ask ''a,b'') ?s1) = Ok200 ?b"
    by (simp add: server_defs example_defs)
  then have "get_teetimes reference down 1000 (ask ''a,b'') ?s1 =
      (Ok200 ?b, snd (get_teetimes reference down 1000 (ask ''a,b'') ?s1))"
    by (simp add: prod_eq_iff)
  from records_belong_to_registry [OF r p this] r e p show ?thesis by simp
qed

subsection \<open>The course keys of a request\<close>

lemma split_on_none: "c \<notin> set x \<Longrightarrow> split_on c x = [x]"
  by (induction x) auto

lemma split_on_append:
  "c \<notin> set x \<Longrightarrow> split_on c (x @ c # rest) = x # split_on c rest"
  by (induction x) auto

lemma split_on_intercalate:
  "ks \<noteq> [] \<Longrightarrow> \<forall>k\<in>set ks. c \<notin> set k \<Longrightarrow> split_on c (intercalate [c] ks) = ks"
proof (induction "[c]" ks rule: intercalate.induct)
  case 1
  then show ?case by simp
next
  case (2 x)
  then show ?case by (simp add: split_on_none)
next
  case (3 x y ys)
  then show ?case by (simp add: split_on_append)
qed

text \<open>Trimming takes the white space around a key away and leaves the key.\<close>

lemma trim_padded:
  assumes "list_all isSpace a" "list_all isSpace b" "k \<noteq> []"
    "\<not> isSpace (hd k)" "\<not> isSpace (last k)"
  shows "trim (a @ k @ b) = k"
proof -
  have 1: "dropWhile isSpace (a @ k @ b) = k @ b"
    using assms(1) by (rule run_split) (simp add: assms(3,4))
  have "list_all isSpace (rev b)" using assms(2) by (simp add: list_all_iff)
  then have 2: "dropWhile isSpace (rev b @ rev k) = rev k"
    by (rule run_split) (simp add: assms(3,5) hd_rev)
  show ?thesis by (simp add: trim_def 1 2 del: dropWhile_append dropWhile_append1 dropWhile_append2)
qed

lemma trim_spaces: "list_all isSpace w \<Longrightarrow> trim w = []"
proof -
  assume "list_all isSpace w"
  then have d: "dropWhile isSpace w = []" by (induction w) simp_all
  show ?thesis by (simp only: trim_def d) simp
qed

lemma trim_pad: "padded_key p \<Longrightarrow> trim (pad p) = key_of p"
proof -
  assume p: "padded_key p"
  obtain l k r where lkr: "p = (l, k, r)" by (cases p)
  show ?thesis
  proof (cases "k = []")
    case True
    with p lkr have "list_all isSpace (l @ r)" by (simp add: padded_key_def)
    then have "trim (l @ r) = []" by (rule trim_spaces)
    with True lkr show ?thesis by (simp add: pad_def key_of_def)
  next
    case False
    with p lkr have "trim (l @ k @ r) = k"
      by (intro trim_padded) (simp_all add: padded_key_def unpadded_def)
    with lkr show ?thesis by (simp add: pad_def key_of_def)
  qed
qed

lemma trim_unpadded: "unpadded k \<Longrightarrow> trim k = k"
  using trim_pad [of "([], k, [])"] trim_spaces [of "[]"]
  by (cases "k = []") (simp_all add: unpadded_def trim_padded [of "[]" "[]" k, simplified])

text \<open>The handler's fetches are one call of \<open>fetchTeeTimes\<close> for each trimmed key.\<close>

lemma fan_out_step:
  "foldl (\<lambda>acc k. case fetchTeeTimes up t k d pl (snd acc) of
                     (r, s') \<Rightarrow> (fst acc @ [r], s'))
     (rs0, s) (map trim ks) =
   (rs0 @ fst (fetchAll up t d pl ks s), snd (fetchAll up t d pl ks s))"
proof (induction ks arbitrary: rs0 s)
  case Nil
  then show ?case by simp
next
  case (Cons k ks)
  obtain r s1 where f: "fetchTeeTimes up t (trim k) d pl s = (r, s1)"
    by (cases "fetchTeeTimes up t (trim k) d pl s")
  obtain rs s2 where g: "fetchAll up t d pl ks s1 = (rs, s2)"
    by (cases "fetchAll up t d pl ks s1")
  from Cons.IH [of "rs0 @ [r]" s1] f g show ?case by simp
qed

lemma fetchAll_fan_out:
  "fetchAll up t d pl ks s = fan_out up t d pl (map trim ks) s"
  using fan_out_step [of up t d pl "[]" s ks] by (simp add: fan_out_def)

lemma get_teetimes_answer:
  assumes "q_date q = Some d" "d \<noteq> []"
  shows "fst (get_teetimes pf up t q s) =
     answer_of pf d (parsePlayers (q_players q))
       (fst (fetchAll up t d (parsePlayers (q_players q)) (courseKeys s (q_courses q)) s))"
  using assms
  by (simp add: get_teetimes_def answer_of_def split: prod.splits sum.splits)

lemma intercalate_nonempty:
  "ks \<noteq> [] \<Longrightarrow> \<forall>k\<in>set ks. k \<noteq> [] \<Longrightarrow> intercalate sep ks \<noteq> []"
  by (induction sep ks rule: intercalate.induct) auto

lemma pad_no_comma: "padded_key p \<Longrightarrow> CHR '','' \<notin> set (pad p)"
  by (cases p) (auto simp: padded_key_def pad_def list_all_iff isSpace_def)

text \<open>
  C10. A request with a date and without the \<open>courses\<close> parameter (or with an empty
  one) is answered from one call of \<open>fetchTeeTimes\<close> for each key of the registry, in
  the registry's order, the keys having no white space around them (as every key of
  \<open>COURSES\<close>). A request whose \<open>courses\<close> parameter lists keys, each with any white
  space around it, is answered from one call of \<open>fetchTeeTimes\<close> for each listed key
  without that white space.
\<close>

theorem course_keys_fan_out:
  assumes "q_date q = Some d" and "d \<noteq> []"
  shows
    "(q_courses q = None \<or> q_courses q = Some [] \<longrightarrow>
        list_all unpadded (map fst (registry s)) \<longrightarrow>
        fst (get_teetimes pf up t q s) =
          answer_of pf d (parsePlayers (q_players q))
            (fst (fan_out up t d (parsePlayers (q_players q)) (map fst (registry s)) s))) \<and>
     (\<forall>pks. pks \<noteq> [] \<and> list_all padded_key pks \<and>
            q_courses q = Some (intercalate '','' (map pad pks)) \<and>
            intercalate '','' (map pad pks) \<noteq> [] \<longrightarrow>
        fst (get_teetimes pf up t q s) =
          answer_of pf d (parsePlayers (q_players q))
            (fst (fan_out up t d (parsePlayers (q_players q)) (map key_of pks) s)))"
proof (intro conjI allI impI)
  assume c: "q_courses q = None \<or> q_courses q = Some []"
    and u: "list_all unpadded (map fst (registry s))"
  from c have "courseKeys s (q_courses q) = map fst (registry s)"
    by (auto simp: courseKeys_def)
  moreover from u have "map trim (map fst (registry s)) = map fst (registry s)"
    by (simp add: list_all_iff trim_unpadded)
  ultimately show "fst (get_teetimes pf up t q s) =
      answer_of pf d (parsePlayers (q_players q))
        (fst (fan_out up t d (parsePlayers (q_players q)) (map fst (registry s)) s))"
    by (simp only: get_teetimes_answer [OF assms] fetchAll_fan_out)
next
  fix pks
  assume a: "pks \<noteq> [] \<and> list_all padded_key pks \<and>
            q_courses q = Some (intercalate '','' (map pad pks)) \<and>
            intercalate '','' (map pad pks) \<noteq> []"
  then have "\<forall>k\<in>set (map pad pks). CHR '','' \<notin> set k"
    by (auto simp: list_all_iff pad_no_comma)
  with a have "split_on CHR '','' (intercalate '','' (map pad pks)) = map pad pks"
    by (intro split_on_intercalate) simp_all
  with a have "courseKeys s (q_courses q) = map pad pks"
    by (simp add: courseKeys_def)
  moreover from a have "map trim (map pad pks) = map key_of pks"
    by (simp add: list_all_iff trim_pad)
  ultimately show "fst (get_teetimes pf up t q s) =
      answer_of pf d (parsePlayers (q_players q))
        (fst (fan_out up t d (parsePlayers (q_players q)) (map key_of pks) s))"
    by (simp only: get_teetimes_answer [OF assms] fetchAll_fan_out)
qed

theorem course_keys_fan_out_witness:
  "fst (get_teetimes reference morning 0
     \<lparr>q_date = Some ''d'', q_players = None, q_courses = None\<rparr> fresh) =
     answer_of reference ''d'' (Some 2)
       (fst (fan_out morning 0 ''d'' (Some 2) [''a'', ''b'', ''c''] fresh)) \<and>
   fst (fan_out morning 0 ''d'' (Some 2) [''a'', ''b'', ''c''] fresh) =
     [Inr [record_a (JStr ''08:00'')], Inr [record_b (JStr ''07:30'')], Inr []] \<and>
   outbound (snd (get_teetimes reference morning 0
     \<lparr>q_date = Some ''d'', q_players = None, q_courses = None\<rparr> fresh)) =
     [GetTimes ''u'' 5 ''d'' (Some 2), GetTimes ''v'' 6 ''d'' (Some 2), GetBookingPage 3] \<and>
   fst (get_teetimes reference morning 0 (ask '' a ,b'') fresh) =
     answer_of reference ''d'' (Some 2)
       (fst (fan_out morning 0 ''d'' (Some 2) [''a'', ''b''] fresh)) \<and>
   fst (get_teetimes reference morning 0 (ask '' a ,b'') fresh) =
     Ok200 \<lparr>date = ''d'', players' = Some 2, count' = 2,
            teetimes = [record_b (JStr ''07:30''), record_a (JStr ''08:00'')]\<rparr>"
proof -
  let ?q = "\<lparr>q_date = Some ''d'', q_players = None, q_courses = None\<rparr>"
  have d: "q_date ?q = Some ''d''" "q_date (ask '' a ,b'') = Some ''d''" "''d'' \<noteq> []"
    by (simp_all add: ask_def)
  have u: "list_all unpadded (map fst (registry fresh))"
    by (simp add: unpadded_def isSpace_def fresh_def three_courses_def)
  have k: "map fst (registry fresh) = [''a'', ''b'', ''c'']"
    by (simp add: fresh_def three_courses_def)
  have 1: "fst (get_teetimes reference morning 0 ?q fresh) =
     answer_of reference ''d'' (Some 2)
       (fst (fan_out morning 0 ''d'' (Some 2) [''a'', ''b'', ''c''] fresh))"
    using course_keys_fan_out [OF d(1) d(3), of fresh reference morning 0] u
    by (simp add: k parsePlayers_def)
  have 2: "fst (fan_out morning 0 ''d'' (Some 2) [''a'', ''b'', ''c''] fresh) =
     [Inr [record_a (JStr ''08:00'')], Inr [record_b (JStr ''07:30'')], Inr []]"
    by (simp add: fan_out_def server_defs example_defs)
  have 5: "outbound (snd (get_teetimes reference morning 0 ?q fresh)) =
     [GetTimes ''u'' 5 ''d'' (Some 2), GetTimes ''v'' 6 ''d'' (Some 2), GetBookingPage 3]"
    by (simp add: server_defs example_defs)
  let ?pks = "[('' '', ''a'', '' ''), ([], ''b'', [])]"
  have p: "?pks \<noteq> [] \<and> list_all padded_key ?pks \<and>
      q_courses (ask '' a ,b'') = Some (intercalate '','' (map pad ?pks)) \<and>
      intercalate '','' (map pad ?pks) \<noteq> []"
    by (simp add: padded_key_def unpadded_def pad_def isSpace_def ask_def)
  have 3: "fst (get_teetimes reference morning 0 (ask '' a ,b'') fresh) =
     answer_of reference ''d'' (Some 2)
       (fst (fan_out morning 0 ''d'' (Some 2) [''a'', ''b''] fresh))"
    using course_keys_fan_out [OF d(2) d(3), of fresh reference morning 0,
        THEN conjunct2, rule_format, OF p]
    by (simp add: key_of_def ask_def parsePlayers_def parseInt_def digitValue_def isSpace_def)
  have 4: "fst (get_teetimes reference morning 0 (ask '' a ,b'') fresh) =
     Ok200 \<lparr>date = ''d'', players' = Some 2, count' = 2,
            teetimes = [record_b (JStr ''07:30''), record_a (JStr ''08:00'')]\<rparr>"
    unfolding 3 by (simp add: answer_of_def fan_out_def server_defs example_defs)
  from 1 2 3 4 5 show ?thesis by simp
qed

subsection \<open>A registry without unknown ids\<close>

lemma known_fetchSchedule_pages:
  assumes "truthy_num (id' sch)" "fetchSchedule up now k crs d pl i sch res s = (res', s')"
  shows "pages_fetched cid s' = pages_fetched cid s"
proof -
  have "resolveScheduleId up now k crs i sch s = (id' sch, s)"
    using assms(1) by (simp add: resolveScheduleId_def)
  with assms(2) show ?thesis
    by (auto simp: fetchSchedule_def Let_def pages_fetched_def
        split: option.splits if_splits http_result.splits sum.splits)
qed

lemma known_fetchSchedules_pages:
  assumes "\<forall>sch\<in>set rest. truthy_num (id' sch)"
    and "fetchSchedules up now k crs d pl i rest res s = (res', s')"
  shows "pages_fetched cid s' = pages_fetched cid s"
  using assms
proof (induction rest arbitrary: i res s)
  case Nil
  then show ?case by simp
next
  case (Cons sch rest)
  obtain ra sa where h: "fetchSchedule up now k crs d pl i sch res s = (ra, sa)"
    by (cases "fetchSchedule up now k crs d pl i sch res s")
  with Cons.prems have "pages_fetched cid sa = pages_fetched cid s"
    by (auto intro: known_fetchSchedule_pages)
  with Cons.IH [of "Suc i" ra sa] Cons.prems h show ?case by simp
qed

lemma all_known_fetchTeeTimes:
  assumes "all_known (registry s)"
  shows "registry (snd (fetchTeeTimes up t k d pl s)) = registry s \<and>
         pages_fetched cid (snd (fetchTeeTimes up t k d pl s)) = pages_fetched cid s"
proof (cases "lookup_course (registry s) k")
  case (Own crs)
  then have "map_of (registry s) k = Some crs"
    by (auto simp: lookup_course_def split: option.splits if_splits)
  then have "(k, crs) \<in> set (registry s)" by (rule map_of_SomeD)
  with assms have known: "\<forall>sch\<in>set (schedules crs). truthy_num (id' sch)"
    by (fastforce simp: all_known_def list_all_iff)
  obtain res' s' where l: "fetchSchedules up t k crs d pl 0 (schedules crs) [] s = (res', s')"
    by (cases "fetchSchedules up t k crs d pl 0 (schedules crs) [] s")
  from known_fetchSchedules_registry [OF known l] known_fetchSchedules_pages [OF known l] Own l
  show ?thesis by (simp add: fetchTeeTimes_def)
next
  case Inherited
  then show ?thesis by (simp add: fetchTeeTimes_def)
next
  case Missing
  then show ?thesis by (simp add: fetchTeeTimes_def)
qed

lemma all_known_fetchAll:
  assumes "all_known (registry s)"
  shows "registry (snd (fetchAll up t d pl ks s)) = registry s \<and>
         pages_fetched cid (snd (fetchAll up t d pl ks s)) = pages_fetched cid s"
  using assms
proof (induction ks arbitrary: s)
  case Nil
  then show ?case by simp
next
  case (Cons k ks)
  from all_known_fetchTeeTimes [OF Cons.prems, of up t "trim k" d pl cid]
  have a: "registry (snd (fetchTeeTimes up t (trim k) d pl s)) = registry s"
    "pages_fetched cid (snd (fetchTeeTimes up t (trim k) d pl s)) = pages_fetched cid s"
    by simp_all
  with Cons.prems have "all_known (registry (snd (fetchTeeTimes up t (trim k) d pl s)))"
    by simp
  from Cons.IH [OF this] a show ?case by (simp only: fetchAll_Cons_snd)
qed

lemma all_known_reachable:
  assumes "all_known reg0" "reachable reg0 s"
  shows "registry s = reg0 \<and> pages_fetched cid s = 0"
  using assms(2)
proof (induction rule: reachable.induct)
  case start
  then show ?case by (simp add: pages_fetched_def)
next
  case (request s pf up t q)
  with assms(1) have k: "all_known (registry s)" by simp
  from get_teetimes_state [of pf up t q s] all_known_fetchAll [OF k, of up t _ _ _ cid] request.IH
  show ?case by auto
qed

text \<open>
  In \<open>COURSES\<close> every schedule has its id: whatever requests the server answers, its
  registry stays \<open>COURSES\<close> and no booking page is ever requested.
\<close>

lemma shipped_registry_fixed:
  "reachable COURSES s \<Longrightarrow> registry s = COURSES \<and> pages_fetched cid s = 0"
  by (rule all_known_reachable) (simp_all add: all_known_def COURSES_def truthy_num_def)

text \<open>No key of \<open>COURSES\<close> has white space around it.\<close>

lemma shipped_keys_unpadded:
  "reachable COURSES s \<Longrightarrow> list_all unpadded (map fst (registry s))"
proof -
  assume "reachable COURSES s"
  then have "registry s = COURSES" using shipped_registry_fixed by blast
  then show ?thesis by (simp add: COURSES_def unpadded_def isSpace_def)
qed

end
